theory Spec2Isabelle
  imports Main "HOL-Library.Word" "HOL-Library.Multiset"
begin

section \<open>The request queue of \<open>main.cpp\<close>\<close>

text \<open>
  The program keeps one binary max-heap of requests per group inside a \<open>RequestQueue\<close>,
  guarded by a global counter \<open>currentSize\<close> and a fixed \<open>capacity\<close>. One generator
  thread pushes, the device threads pop.

  Machine integers follow the usual 64-bit (LP64) platform: \<open>int\<close> and \<open>unsigned int\<close>
  are 32 bits wide, \<open>size_t\<close> is 64 bits wide. An \<open>unsigned int\<close> is a \<open>32 word\<close>
  whose arithmetic wraps around; an \<open>int\<close> is a \<open>32 word\<close> that is compared through
  its signed reading (\<open><s\<close>, \<open>sint\<close>). A \<open>std::vector\<close> is a list; its \<open>size()\<close> is the
  list's length, which the code compares with \<open>unsigned int\<close> indices after widening
  them to \<open>size_t\<close> (\<open>unat\<close>).

  Undefined behaviour of the source (an access \<open>v[i]\<close> with \<open>i \<ge> v.size()\<close>,
  \<open>back()\<close> of an empty vector, signed overflow) is the value \<open>UB\<close>.
\<close>

type_synonym u32 = "32 word"
type_synonym i32 = "32 word"

datatype 'a result = Ok 'a | UB

subsection \<open>Constants\<close>

definition MIN_REQUEST_TYPE :: i32 where
  "MIN_REQUEST_TYPE = 1"

definition MAX_REQUEST_TYPE :: i32 where
  "MAX_REQUEST_TYPE = 3"

subsection \<open>Device and Request\<close>

record Device =
  groupId :: i32
  id_dev :: i32

record Request =
  groupId :: i32
  type :: i32

text \<open>\<open>Request::operator<\<close> and \<open>Request::operator>\<close> compare the \<open>type\<close> fields as signed
  integers.\<close>

definition less_req :: "Request \<Rightarrow> Request \<Rightarrow> bool" where
  "less_req a other = (type a <s type other)"

definition greater_req :: "Request \<Rightarrow> Request \<Rightarrow> bool" where
  "greater_req a other = (type other <s type a)"

subsection \<open>The heap procedures\<close>

text \<open>\<open>std::swap(requests[i], requests[j])\<close> on two positions of a vector.\<close>

definition std_swap :: "'a list \<Rightarrow> nat \<Rightarrow> nat \<Rightarrow> 'a list" where
  "std_swap xs i j = xs[i := xs ! j, j := xs ! i]"

text \<open>\<open>RequestQueue::heapifyUp\<close>. Both \<open>requests[parent]\<close> and \<open>requests[index]\<close> are read
  before the comparison, so either index out of range is undefined behaviour.\<close>

function heapifyUp :: "Request list \<Rightarrow> u32 \<Rightarrow> Request list result" where
  "heapifyUp requests index =
     (if index = 0 then Ok requests
      else let parent = (index - 1) div 2 in
        if \<not> (unat parent < length requests \<and> unat index < length requests) then UB
        else if \<not> less_req (requests ! unat parent) (requests ! unat index) then Ok requests
        else heapifyUp (std_swap requests (unat parent) (unat index)) parent)"
  by pat_completeness auto
termination
proof (relation "measure (\<lambda>(requests, index). unat index)")
  fix requests :: "Request list" and index parent :: u32
  assume nz: "index \<noteq> 0" and p: "parent = (index - 1) div 2"
  from nz have "unat index \<noteq> 0"
    by (simp add: unat_eq_zero)
  moreover from nz p have "unat parent = (unat index - 1) div 2"
    by (simp add: unat_div unat_minus_one)
  ultimately show "((std_swap requests (unat parent) (unat index), parent), (requests, index))
      \<in> measure (\<lambda>(requests, index). unat index)"
    by simp
qed simp

declare heapifyUp.simps [simp del]

text \<open>\<open>RequestQueue::heapifyDown\<close>. \<open>left\<close> and \<open>right\<close> are computed in \<open>unsigned int\<close>,
  so they wrap around modulo \<open>2 ^ 32\<close>. The function is a partial function: \<open>None\<close> is
  the run that never returns, \<open>Some UB\<close> a read outside the vector. The \<open>&&\<close> of the
  source short-circuits: \<open>requests[large]\<close> is only read once the child index is in
  range.\<close>

partial_function (option) heapifyDown :: "Request list \<Rightarrow> u32 \<Rightarrow> Request list result option" where
  "heapifyDown requests index =
     (let large = index;
          left = 2 * index + 1;
          right = 2 * index + 2
      in if unat left < length requests \<and> \<not> unat large < length requests then Some UB
      else let large = (if unat left < length requests
                           \<and> greater_req (requests ! unat left) (requests ! unat large)
                        then left else large)
      in if unat right < length requests \<and> \<not> unat large < length requests then Some UB
      else let large = (if unat right < length requests
                           \<and> greater_req (requests ! unat right) (requests ! unat large)
                        then right else large)
      in if large = index then Some (Ok requests)
      else heapifyDown (std_swap requests (unat index) (unat large)) large)"

declare heapifyDown.simps [code]

subsection \<open>One group's vector\<close>

text \<open>What \<open>push\<close> and \<open>pop\<close> do to the vector of one group: \<open>push_back\<close> then
  \<open>heapifyUp\<close> from the last position (the \<open>size_t\<close> value \<open>size() - 1\<close> is narrowed to
  \<open>unsigned int\<close>); overwrite the root with \<open>back()\<close>, \<open>pop_back\<close>, then \<open>heapifyDown\<close>
  from 0. \<open>back()\<close> of an empty vector is undefined behaviour.\<close>

definition push_vector :: "Request list \<Rightarrow> Request \<Rightarrow> Request list result" where
  "push_vector requests request =
     (let v = requests @ [request] in heapifyUp v (word_of_nat (length v - 1)))"

definition pop_vector :: "Request list \<Rightarrow> Request list result option" where
  "pop_vector requests =
     (if requests = [] then Some UB
      else heapifyDown (butlast (requests[0 := last requests])) 0)"

subsection \<open>RequestQueue\<close>

record RequestQueue =
  capacity :: u32
  currentSize :: u32
  allRequests :: "Request list list"

text \<open>\<open>initializeQueues\<close>: the loop appends one empty vector per iteration.\<close>

primrec initializeQueues :: "nat \<Rightarrow> Request list list \<Rightarrow> Request list list" where
  "initializeQueues 0 allReq = allReq"
| "initializeQueues (Suc n) allReq = initializeQueues n (allReq @ [[]])"

definition new_RequestQueue :: "u32 \<Rightarrow> u32 \<Rightarrow> RequestQueue" where
  "new_RequestQueue cap numOfGroups =
     \<lparr>capacity = cap, currentSize = 0, allRequests = initializeQueues (unat numOfGroups) []\<rparr>"

text \<open>An \<open>int\<close> group id indexes \<open>allRequests\<close> after conversion to \<open>size_t\<close>: a negative
  id becomes a huge index. \<open>group_index\<close> is the position when it is inside the
  vector.\<close>

definition group_index :: "RequestQueue \<Rightarrow> i32 \<Rightarrow> nat option" where
  "group_index q g =
     (if 0 \<le> sint g \<and> nat (sint g) < length (allRequests q) then Some (nat (sint g)) else None)"

definition size_rq :: "RequestQueue \<Rightarrow> u32" where
  "size_rq q = currentSize q"

definition top_rq :: "i32 \<Rightarrow> RequestQueue \<Rightarrow> Request result" where
  "top_rq g q =
     (case group_index q g of
        None \<Rightarrow> UB
      | Some k \<Rightarrow> if allRequests q ! k = [] then UB else Ok (allRequests q ! k ! 0))"

definition isFull :: "RequestQueue \<Rightarrow> bool" where
  "isFull q = (currentSize q = capacity q)"

definition isEmpty :: "i32 \<Rightarrow> RequestQueue \<Rightarrow> bool result" where
  "isEmpty g q =
     (case group_index q g of
        None \<Rightarrow> UB
      | Some k \<Rightarrow> Ok (allRequests q ! k = []))"

definition push :: "Request \<Rightarrow> RequestQueue \<Rightarrow> RequestQueue result" where
  "push request q =
     (case group_index q (Request.groupId request) of
        None \<Rightarrow> UB
      | Some k \<Rightarrow>
          (case push_vector (allRequests q ! k) request of
             UB \<Rightarrow> UB
           | Ok v \<Rightarrow> Ok (q\<lparr>currentSize := currentSize q + 1,
                           allRequests := (allRequests q)[k := v]\<rparr>)))"

definition pop :: "i32 \<Rightarrow> RequestQueue \<Rightarrow> RequestQueue result option" where
  "pop g q =
     (case group_index q g of
        None \<Rightarrow> Some UB
      | Some k \<Rightarrow>
          (case pop_vector (allRequests q ! k) of
             None \<Rightarrow> None
           | Some UB \<Rightarrow> Some UB
           | Some (Ok v) \<Rightarrow> Some (Ok (q\<lparr>currentSize := currentSize q - 1,
                                        allRequests := (allRequests q)[k := v]\<rparr>))))"

subsection \<open>The worker and the generator\<close>

text \<open>
  One pass through the body of the loop of \<open>requestProcessing\<close> and of
  \<open>generateRequest\<close>, from the wait on the condition variable to the release of the
  lock. The whole pass runs with the mutex held, so no other thread touches the queue
  during it. \<open>threadIsfFinished\<close> is the value of the shutdown flag that the pass reads
  at \<open>if (threadIsfFinished) break;\<close>. The signal handler only ever sets the flag, so a
  flag that the wait predicate saw as true is still true there; and with a flag that
  is true the predicate lets the pass through. Console output and the sleeps are left
  out. A pass either stays blocked in
  \<open>cv.wait\<close> (the predicate is false), leaves the loop (\<open>break\<close>), or completes and
  goes round again; each outcome carries the queue as the pass leaves it.
\<close>

datatype 'a pass = Blocked RequestQueue | Break RequestQueue | Continue 'a RequestQueue

text \<open>\<open>Request request = queue.top(device.groupId); queue.pop(device.groupId);\<close>\<close>

definition remove_max :: "i32 \<Rightarrow> RequestQueue \<Rightarrow> (Request \<times> RequestQueue) result option" where
  "remove_max g queue =
     (case top_rq g queue of
        UB \<Rightarrow> Some UB
      | Ok request \<Rightarrow>
          (case pop g queue of
             None \<Rightarrow> None
           | Some UB \<Rightarrow> Some UB
           | Some (Ok queue') \<Rightarrow> Some (Ok (request, queue'))))"

definition requestProcessing_pass ::
    "bool \<Rightarrow> Device \<Rightarrow> RequestQueue \<Rightarrow> Request pass result option" where
  "requestProcessing_pass threadIsfFinished device queue =
     (case isEmpty (Device.groupId device) queue of
        UB \<Rightarrow> Some UB
      | Ok noRequests \<Rightarrow>
          if \<not> (\<not> noRequests \<or> threadIsfFinished) then Some (Ok (Blocked queue))
          else if threadIsfFinished then Some (Ok (Break queue))
          else (case remove_max (Device.groupId device) queue of
                  None \<Rightarrow> None
                | Some UB \<Rightarrow> Some UB
                | Some (Ok (request, queue')) \<Rightarrow> Some (Ok (Continue request queue'))))"

text \<open>\<open>getRandomNumber(start, end)\<close> seeds a \<open>std::mt19937\<close> with \<open>rd()\<close> and returns
  \<open>dist(gen)\<close> for \<open>std::uniform_int_distribution<> dist(start, end)\<close>. The two library
  classes are not part of the program: what \<open>dist(gen)\<close> yields for a range and a seed is
  the parameter \<open>dist\<close>, and the value of \<open>rd()\<close> is the parameter \<open>rd\<close>. Constructing
  the distribution with \<open>end < start\<close> breaks its precondition, which is undefined
  behaviour.\<close>

definition getRandomNumber :: "(i32 \<Rightarrow> i32 \<Rightarrow> u32 \<Rightarrow> i32) \<Rightarrow> i32 \<Rightarrow> i32 \<Rightarrow> u32 \<Rightarrow> i32 result" where
  "getRandomNumber dist start finish rd =
     (if finish <s start then UB else Ok (dist start finish rd))"

text \<open>The request that one pass of \<open>generateRequest\<close> builds:
  \<open>Request(getRandomNumber(0, numGroups - 1), getRandomNumber(MIN_REQUEST_TYPE,
  MAX_REQUEST_TYPE))\<close>, with \<open>rd1\<close> and \<open>rd2\<close> the seeds of the two calls. \<open>numGroups - 1\<close> is
  signed arithmetic: it overflows, which is undefined, exactly when \<open>numGroups\<close> is the
  least \<open>int\<close>. Both calls are made before the request is built, so undefined behaviour in
  either leaves no request.\<close>

definition generateRequest_request ::
    "(i32 \<Rightarrow> i32 \<Rightarrow> u32 \<Rightarrow> i32) \<Rightarrow> i32 \<Rightarrow> u32 \<Rightarrow> u32 \<Rightarrow> Request result" where
  "generateRequest_request dist numGroups rd1 rd2 =
     (if sint numGroups - 1 < - (2 ^ 31) then UB
      else (case getRandomNumber dist 0 (numGroups - 1) rd1 of
              UB \<Rightarrow> UB
            | Ok randomGroup \<Rightarrow>
                (case getRandomNumber dist MIN_REQUEST_TYPE MAX_REQUEST_TYPE rd2 of
                   UB \<Rightarrow> UB
                 | Ok randomType \<Rightarrow>
                     Ok \<lparr>Request.groupId = randomGroup, type = randomType\<rparr>)))"

definition generateRequest_pass ::
    "bool \<Rightarrow> (i32 \<Rightarrow> i32 \<Rightarrow> u32 \<Rightarrow> i32) \<Rightarrow> i32 \<Rightarrow> u32 \<Rightarrow> u32 \<Rightarrow> RequestQueue
      \<Rightarrow> unit pass result" where
  "generateRequest_pass threadIsfFinished dist numGroups rd1 rd2 queue =
     (if \<not> (\<not> isFull queue \<or> threadIsfFinished) then Ok (Blocked queue)
      else if threadIsfFinished then Ok (Break queue)
      else (case generateRequest_request dist numGroups rd1 rd2 of
              UB \<Rightarrow> UB
            | Ok request \<Rightarrow>
                (case push request queue of
                   UB \<Rightarrow> UB
                 | Ok queue' \<Rightarrow> Ok (Continue () queue'))))"

subsection \<open>Start-up\<close>

text \<open>The devices that \<open>main\<close> creates: for each group \<open>i\<close> and each \<open>q\<close> below
  \<open>numOfDevices\<close>, the device \<open>Device(i, i * numOfDevices + q)\<close>. The product and the sum
  are \<open>unsigned int\<close> arithmetic; the conversion to the \<open>int\<close> field keeps the bits.\<close>

definition device_id :: "u32 \<Rightarrow> u32 \<Rightarrow> u32 \<Rightarrow> i32" where
  "device_id numOfDevices i q = i * numOfDevices + q"

definition new_Device :: "u32 \<Rightarrow> u32 \<Rightarrow> u32 \<Rightarrow> Device" where
  "new_Device numOfDevices i q = \<lparr>Device.groupId = i, id_dev = device_id numOfDevices i q\<rparr>"

definition created_devices :: "u32 \<Rightarrow> u32 \<Rightarrow> Device list" where
  "created_devices numOfGroups numOfDevices =
     concat (map (\<lambda>i. map (\<lambda>q. new_Device numOfDevices (word_of_nat i) (word_of_nat q))
                          [0..<unat numOfDevices])
                 [0..<unat numOfGroups])"

subsection \<open>Running operations in sequence\<close>

text \<open>Pushing a list of requests one after the other, and removing the maximum of a
  group a number of times, collecting what was removed.\<close>

fun pushes :: "Request list \<Rightarrow> RequestQueue \<Rightarrow> RequestQueue result" where
  "pushes [] q = Ok q"
| "pushes (r # rs) q = (case push r q of UB \<Rightarrow> UB | Ok q' \<Rightarrow> pushes rs q')"

fun remove_maxes :: "nat \<Rightarrow> i32 \<Rightarrow> RequestQueue \<Rightarrow> (Request list \<times> RequestQueue) result option" where
  "remove_maxes 0 g q = Some (Ok ([], q))"
| "remove_maxes (Suc n) g q =
     (case remove_max g q of
        None \<Rightarrow> None
      | Some UB \<Rightarrow> Some UB
      | Some (Ok (r, q')) \<Rightarrow>
          (case remove_maxes n g q' of
             None \<Rightarrow> None
           | Some UB \<Rightarrow> Some UB
           | Some (Ok (rs, q'')) \<Rightarrow> Some (Ok (r # rs, q''))))"

section \<open>Vocabulary of the properties\<close>

subsection \<open>The random numbers\<close>

text \<open>What the program relies on from the library: whenever \<open>getRandomNumber(start, end)\<close>
  returns, its value lies in the closed range from \<open>start\<close> to \<open>end\<close>.\<close>

definition getRandomNumber_in_range :: "(i32 \<Rightarrow> i32 \<Rightarrow> u32 \<Rightarrow> i32) \<Rightarrow> bool" where
  "getRandomNumber_in_range dist =
     (\<forall>start finish rd r. getRandomNumber dist start finish rd = Ok r
        \<longrightarrow> start \<le>s r \<and> r \<le>s finish)"

subsection \<open>Priorities and the heap property\<close>

text \<open>The priority of a request is its type, read as a signed integer. \<open>parent_of j\<close> is
  the index \<open>(j - 1) / 2\<close> that \<open>heapifyUp\<close> computes. A vector is a max-heap when every
  element that has a child at \<open>2 * i + 1\<close> or \<open>2 * i + 2\<close> inside the vector has a
  priority no smaller than that child's.\<close>

definition key :: "Request \<Rightarrow> int" where
  "key r = sint (type r)"

definition parent_of :: "nat \<Rightarrow> nat" where
  "parent_of j = (j - 1) div 2"

definition max_heap :: "Request list \<Rightarrow> bool" where
  "max_heap v = (\<forall>i \<in> {0..<length v}.
      (2 * i + 1 < length v \<longrightarrow> key (v ! (2 * i + 1)) \<le> key (v ! i))
    \<and> (2 * i + 2 < length v \<longrightarrow> key (v ! (2 * i + 2)) \<le> key (v ! i)))"

definition below_parent :: "Request list \<Rightarrow> nat \<Rightarrow> bool" where
  "below_parent v j = (key (v ! j) \<le> key (v ! parent_of j))"

text \<open>The loop invariants of the two sift procedures. While sifting up from \<open>i\<close>, every
  element but the one at \<open>i\<close> respects its parent, and the children of \<open>i\<close> respect the
  parent of \<open>i\<close>. While sifting down from \<open>i\<close>, every element whose parent is not \<open>i\<close>
  respects its parent, and the children of \<open>i\<close> respect the parent of \<open>i\<close>.\<close>

definition sift_up_inv :: "Request list \<Rightarrow> nat \<Rightarrow> bool" where
  "sift_up_inv v i =
     ((\<forall>j < length v. 0 < j \<and> j \<noteq> i \<longrightarrow> below_parent v j)
    \<and> (\<forall>j < length v. 0 < j \<and> parent_of j = i \<and> 0 < i \<longrightarrow> key (v ! j) \<le> key (v ! parent_of i)))"

definition sift_down_inv :: "Request list \<Rightarrow> nat \<Rightarrow> bool" where
  "sift_down_inv v i =
     ((\<forall>j < length v. 0 < j \<and> parent_of j \<noteq> i \<longrightarrow> below_parent v j)
    \<and> (\<forall>j < length v. 0 < j \<and> parent_of j = i \<and> 0 < i \<longrightarrow> key (v ! j) \<le> key (v ! parent_of i)))"

text \<open>The index \<open>large\<close> that one call of \<open>heapifyDown\<close> settles on before it compares
  it with \<open>index\<close>, or \<open>UB\<close> when finding it reads outside the vector. It is the first
  half of the body of \<open>heapifyDown\<close>, word for word.\<close>

definition chosen_large :: "Request list \<Rightarrow> u32 \<Rightarrow> u32 result" where
  "chosen_large requests index =
     (let large = index;
          left = 2 * index + 1;
          right = 2 * index + 2
      in if unat left < length requests \<and> \<not> unat large < length requests then UB
      else let large = (if unat left < length requests
                           \<and> greater_req (requests ! unat left) (requests ! unat large)
                        then left else large)
      in if unat right < length requests \<and> \<not> unat large < length requests then UB
      else Ok (if unat right < length requests
                           \<and> greater_req (requests ! unat right) (requests ! unat large)
                        then right else large))"

subsection \<open>Reachable queues and runs on one vector\<close>

text \<open>The queues that the program can be in: the queue the constructor builds, and
  every queue that a returning \<open>push\<close> leaves when the queue was not full, or that a
  returning \<open>pop\<close> leaves when the group existed and was not empty. These are the guards
  under which the generator and the devices call the two operations.\<close>

inductive reachable :: "u32 \<Rightarrow> u32 \<Rightarrow> RequestQueue \<Rightarrow> bool" for cap numOfGroups where
  initial: "reachable cap numOfGroups (new_RequestQueue cap numOfGroups)"
| after_push: "reachable cap numOfGroups q \<Longrightarrow> \<not> isFull q \<Longrightarrow> push request q = Ok q'
     \<Longrightarrow> reachable cap numOfGroups q'"
| after_pop: "reachable cap numOfGroups q \<Longrightarrow> isEmpty g q = Ok False \<Longrightarrow> pop g q = Some (Ok q')
     \<Longrightarrow> reachable cap numOfGroups q'"

definition total_size :: "RequestQueue \<Rightarrow> nat" where
  "total_size q = sum_list (map length (allRequests q))"

definition heaps_ok :: "RequestQueue \<Rightarrow> bool" where
  "heaps_ok q = (\<forall>k < length (allRequests q). max_heap (allRequests q ! k))"

text \<open>A sequence of pushes and pops on the vector of one group. A pop of the empty
  vector is undefined behaviour, so a run that ends in \<open>Ok\<close> popped only when the vector
  was not empty.\<close>

datatype heap_op = Push Request | Pop

fun run_ops :: "heap_op list \<Rightarrow> Request list \<Rightarrow> Request list result option" where
  "run_ops [] v = Some (Ok v)"
| "run_ops (Push r # ops) v =
     (case push_vector v r of UB \<Rightarrow> Some UB | Ok w \<Rightarrow> run_ops ops w)"
| "run_ops (Pop # ops) v =
     (case pop_vector v of None \<Rightarrow> None | Some UB \<Rightarrow> Some UB | Some (Ok w) \<Rightarrow> run_ops ops w)"

subsection \<open>Large vectors\<close>

text \<open>A vector of \<open>n\<close> requests given by its contents at each index, and the choice of
  \<open>heapifyDown\<close> at index \<open>a\<close> of such a vector, computed on natural numbers with the
  wrap-around of \<open>unsigned int\<close> written out.\<close>

definition vec :: "nat \<Rightarrow> (nat \<Rightarrow> Request) \<Rightarrow> Request list" where
  "vec n f = map f [0..<n]"

definition larger_index :: "nat \<Rightarrow> (nat \<Rightarrow> Request) \<Rightarrow> nat \<Rightarrow> nat" where
  "larger_index n f a =
     (let l = (2 * a + 1) mod 2 ^ 32;
          r = (2 * a + 2) mod 2 ^ 32;
          c = (if l < n \<and> key (f a) < key (f l) then l else a)
      in if r < n \<and> key (f c) < key (f r) then r else c)"

definition req :: "i32 \<Rightarrow> Request" where
  "req t = \<lparr>Request.groupId = 0, type = t\<rparr>"

text \<open>The vector of \<open>2 ^ 31\<close> requests of type 2 followed by one request of type 1, all of
  group 0; \<open>stuck_fn\<close> gives its contents by index. Popping it moves the request of type 1 to the root; \<open>single_low a\<close> is the
  contents of the vector while that request sits at index \<open>a\<close>, and \<open>on_cycle\<close> collects
  the arguments of \<open>heapifyDown\<close> while it sits on the leftmost branch, at an index
  \<open>2 ^ k - 1\<close>.\<close>

definition single_low :: "nat \<Rightarrow> nat \<Rightarrow> Request" where
  "single_low a i = (if i = a then req 1 else req 2)"

definition stuck_vector :: "Request list" where
  "stuck_vector = replicate (2 ^ 31) (req 2) @ [req 1]"

definition stuck_fn :: "nat \<Rightarrow> Request" where
  "stuck_fn i = (if i < 2 ^ 31 then req 2 else req 1)"

definition on_cycle :: "Request list \<Rightarrow> u32 \<Rightarrow> bool" where
  "on_cycle v i = (\<exists>k \<le> 31. v = vec (2 ^ 31) (single_low (2 ^ k - 1)) \<and> i = word_of_nat (2 ^ k - 1))"

text \<open>A max-heap of \<open>2 ^ 31 + 1\<close> requests of group 0: type 3 at the indices 0, 1 and 2,
  type 2 further down the leftmost branch (the indices \<open>2 ^ k - 1\<close>, from 3 to
  \<open>2 ^ 31 - 1\<close>), type 1 everywhere else. \<open>broken_heap\<close> is what a pop makes of it,
  \<open>full_queue n f\<close> a queue of capacity \<open>2 ^ 31 + 1\<close> whose only group holds \<open>vec n f\<close>,
  \<open>bad_queue\<close> the queue after the pop, one more push of a request of type 2 and a
  second pop, and \<open>after_queue\<close> the queue after a third pop.\<close>

definition spine :: "nat list" where
  "spine = map (\<lambda>k. 2 ^ k - 1) [2..<32]"

definition big_heap_fn :: "nat \<Rightarrow> Request" where
  "big_heap_fn i = (if i < 3 then req 3 else if i \<in> set spine then req 2 else req 1)"

definition big_heap :: "Request list" where
  "big_heap = vec (2 ^ 31 + 1) big_heap_fn"

definition broken_heap :: "Request list" where
  "broken_heap = vec (2 ^ 31) (big_heap_fn(1 := req 2, 2 := req 1, 2 ^ 31 - 1 := req 3))"

definition full_queue :: "nat \<Rightarrow> (nat \<Rightarrow> Request) \<Rightarrow> RequestQueue" where
  "full_queue n f = \<lparr>capacity = 2 ^ 31 + 1, currentSize = word_of_nat n, allRequests = [vec n f]\<rparr>"

definition bad_queue :: RequestQueue where
  "bad_queue = full_queue (2 ^ 31)
     (big_heap_fn(0 := req 2, 1 := req 2, 2 := req 1, 2 ^ 31 - 1 := req 3))"

definition after_queue :: RequestQueue where
  "after_queue = full_queue (2 ^ 31 - 1) (big_heap_fn(0 := req 3, 1 := req 2, 2 := req 1))"

section \<open>Auxiliary facts\<close>

lemma group_index_lt: "group_index q g = Some k \<Longrightarrow> k < length (allRequests q)"
  by (auto simp: group_index_def split: if_splits)

lemma heapifyDown_Nil: "heapifyDown [] index = Some (Ok [])"
  by (subst heapifyDown.simps) simp

lemma unat_device_id:
  assumes "unat numOfGroups * unat numOfDevices \<le> 2 ^ 32" "i < numOfGroups" "q < numOfDevices"
  shows "unat (device_id numOfDevices i q) = unat i * unat numOfDevices + unat q"
proof -
  from assms(2) have "Suc (unat i) \<le> unat numOfGroups"
    by (simp add: word_less_nat_alt)
  then have "Suc (unat i) * unat numOfDevices \<le> unat numOfGroups * unat numOfDevices"
    by (rule mult_le_mono1)
  moreover from assms(3) have "unat q < unat numOfDevices"
    by (simp add: word_less_nat_alt)
  ultimately have "unat i * unat numOfDevices + unat q < 2 ^ 32"
    using assms(1) by simp
  then show ?thesis
    by (simp add: device_id_def unat_word_ariths take_bit_nat_eq_self)
qed

lemma quotient_remainder_unique:
  fixes a b c d n :: nat
  assumes "a * n + b = c * n + d" "b < n" "d < n"
  shows "a = c \<and> b = d"
proof -
  from assms have "(a * n + b) div n = (c * n + d) div n" by simp
  with assms(2,3) have "a = c" by simp
  with assms(1) show ?thesis by simp
qed

subsection \<open>Unfolding \<open>heapifyDown\<close>\<close>

lemma heapifyDown_body:
  "(let large = index;
        left = 2 * index + 1;
        right = 2 * index + 2
    in if unat left < length requests \<and> \<not> unat large < length requests then Some UB
    else let large = (if unat left < length requests
                         \<and> greater_req (requests ! unat left) (requests ! unat large)
                      then left else large)
    in if unat right < length requests \<and> \<not> unat large < length requests then Some UB
    else let large = (if unat right < length requests
                         \<and> greater_req (requests ! unat right) (requests ! unat large)
                      then right else large)
    in if large = index then Some (Ok requests)
    else g (std_swap requests (unat index) (unat large)) large)
   = (case chosen_large requests index of
        UB \<Rightarrow> Some UB
      | Ok large \<Rightarrow>
          if large = index then Some (Ok requests)
          else g (std_swap requests (unat index) (unat large)) large)"
  by (simp add: chosen_large_def Let_def)

lemma heapifyDown_unfold:
  "heapifyDown requests index =
     (case chosen_large requests index of
        UB \<Rightarrow> Some UB
      | Ok large \<Rightarrow>
          if large = index then Some (Ok requests)
          else heapifyDown (std_swap requests (unat index) (unat large)) large)"
  by (subst heapifyDown.simps) (rule heapifyDown_body)

lemma heapifyDown_cases [consumes 1, case_names UB Stop Swap]:
  assumes ret: "heapifyDown requests index = Some r"
    and ub: "\<And>v i. chosen_large v i = UB \<Longrightarrow> P v i UB"
    and stop: "\<And>v i. chosen_large v i = Ok i \<Longrightarrow> P v i (Ok v)"
    and swap: "\<And>v i large r. chosen_large v i = Ok large \<Longrightarrow> large \<noteq> i
        \<Longrightarrow> P (std_swap v (unat i) (unat large)) large r \<Longrightarrow> P v i r"
  shows "P requests index r"
proof (rule heapifyDown.raw_induct [unfolded heapifyDown_body, OF _ ret])
  fix g v i r
  assume IH: "\<And>v i r. g v i = Some r \<Longrightarrow> P v i r"
    and body: "(case chosen_large v i of
        UB \<Rightarrow> Some UB
      | Ok large \<Rightarrow>
          if large = i then Some (Ok v)
          else g (std_swap v (unat i) (unat large)) large) = Some r"
  show "P v i r"
  proof (cases "chosen_large v i")
    case UB
    with body ub show ?thesis by auto
  next
    case (Ok large)
    show ?thesis
    proof (cases "large = i")
      case True
      with body Ok stop show ?thesis by auto
    next
      case False
      with body Ok have "g (std_swap v (unat i) (unat large)) large = Some r"
        by simp
      then have "P (std_swap v (unat i) (unat large)) large r"
        by (rule IH)
      with Ok False show ?thesis by (rule swap)
    qed
  qed
qed

lemma chosen_large_in_range:
  "chosen_large v i = Ok large \<Longrightarrow> large \<noteq> i \<Longrightarrow> unat i < length v \<and> unat large < length v"
  by (auto simp: chosen_large_def Let_def split: if_splits)

lemma length_std_swap [simp]: "length (std_swap xs i j) = length xs"
  by (simp add: std_swap_def)

lemma mset_std_swap: "i < length xs \<Longrightarrow> j < length xs \<Longrightarrow> mset (std_swap xs i j) = mset xs"
  by (simp add: std_swap_def mset_swap)

lemma heapifyDown_mset:
  assumes "heapifyDown requests index = Some r"
  shows "r = Ok v \<longrightarrow> mset v = mset requests"
  using assms
proof (induction rule: heapifyDown_cases)
  case (Swap w i large r)
  then show ?case
    using chosen_large_in_range [of w i large] by (auto simp: mset_std_swap)
qed simp_all

lemma heapifyUp_mset: "heapifyUp requests index = Ok v \<Longrightarrow> mset v = mset requests"
proof (induction requests index rule: heapifyUp.induct)
  case (1 requests index)
  show ?case
  proof (cases "index = 0")
    case True
    with "1.prems" show ?thesis by (simp add: heapifyUp.simps)
  next
    case False
    define parent where "parent = (index - 1) div 2"
    from "1.prems" False have inr: "unat parent < length requests" "unat index < length requests"
      by (auto simp: heapifyUp.simps [of requests index] parent_def Let_def split: if_splits)
    show ?thesis
    proof (cases "less_req (requests ! unat parent) (requests ! unat index)")
      case True
      with "1.prems" False inr
      have "heapifyUp (std_swap requests (unat parent) (unat index)) parent = Ok v"
        by (simp add: heapifyUp.simps [of requests index] parent_def Let_def)
      with "1.IH" [OF False parent_def] inr True
      have "mset v = mset (std_swap requests (unat parent) (unat index))"
        by simp
      with inr show ?thesis by (simp add: mset_std_swap)
    next
      case nl: False
      with "1.prems" False inr show ?thesis
        by (simp add: heapifyUp.simps [of requests index] parent_def Let_def)
    qed
  qed
qed

subsection \<open>The heap property and the two sift steps\<close>

lemma less_req_key: "less_req a b \<longleftrightarrow> key a < key b"
  by (simp add: less_req_def key_def word_sless_alt)

lemma greater_req_key: "greater_req a b \<longleftrightarrow> key b < key a"
  by (simp add: greater_req_def key_def word_sless_alt)

lemma parent_of_less: "0 < j \<Longrightarrow> parent_of j < j"
  by (simp add: parent_of_def)

lemma parent_of_left: "parent_of (2 * i + 1) = i"
  by (simp add: parent_of_def)

lemma parent_of_right: "parent_of (2 * i + 2) = i"
  by (simp add: parent_of_def)

lemma child_cases: "0 < j \<Longrightarrow> j = 2 * parent_of j + 1 \<or> j = 2 * parent_of j + 2"
  by (auto simp: parent_of_def)

lemma max_heap_iff: "max_heap v \<longleftrightarrow> (\<forall>j < length v. 0 < j \<longrightarrow> below_parent v j)"
proof
  assume h: "max_heap v"
  show "\<forall>j < length v. 0 < j \<longrightarrow> below_parent v j"
  proof (intro allI impI)
    fix j assume j: "j < length v" "0 < j"
    from j parent_of_less [of j] have "parent_of j \<in> {0..<length v}" by simp
    with h have "(2 * parent_of j + 1 < length v \<longrightarrow> key (v ! (2 * parent_of j + 1)) \<le> key (v ! parent_of j))
      \<and> (2 * parent_of j + 2 < length v \<longrightarrow> key (v ! (2 * parent_of j + 2)) \<le> key (v ! parent_of j))"
      unfolding max_heap_def by blast
    with child_cases [OF j(2)] j(1) show "below_parent v j"
      unfolding below_parent_def by metis
  qed
next
  assume h: "\<forall>j < length v. 0 < j \<longrightarrow> below_parent v j"
  show "max_heap v"
    unfolding max_heap_def
  proof (intro ballI conjI impI)
    fix i assume "2 * i + 1 < length v"
    with h have "below_parent v (2 * i + 1)" by simp
    then show "key (v ! (2 * i + 1)) \<le> key (v ! i)" by (simp only: below_parent_def parent_of_left)
  next
    fix i assume "2 * i + 2 < length v"
    with h have "below_parent v (2 * i + 2)" by simp
    then show "key (v ! (2 * i + 2)) \<le> key (v ! i)" by (simp only: below_parent_def parent_of_right)
  qed
qed

lemma nth_std_swap:
  "i < length xs \<Longrightarrow> j < length xs \<Longrightarrow>
   std_swap xs i j ! k = (if k = j then xs ! i else if k = i then xs ! j else xs ! k)"
  by (simp add: std_swap_def nth_list_update)

lemma sift_up_done:
  assumes "sift_up_inv v i" "i = 0 \<or> \<not> key (v ! parent_of i) < key (v ! i)"
  shows "max_heap v"
  unfolding max_heap_iff
proof (intro allI impI)
  fix j assume j: "j < length v" "0 < j"
  show "below_parent v j"
  proof (cases "j = i")
    case True
    with assms(2) j show ?thesis by (auto simp: below_parent_def)
  next
    case False
    with assms(1) j show ?thesis by (simp add: sift_up_inv_def)
  qed
qed

lemma sift_up_step:
  assumes inv: "sift_up_inv v i" and i: "i < length v" "0 < i"
    and lt: "key (v ! parent_of i) < key (v ! i)"
  shows "sift_up_inv (std_swap v (parent_of i) i) (parent_of i)"
proof -
  define p where "p = parent_of i"
  define w where "w = std_swap v p i"
  from i have p: "p < i" "p < length v"
    using parent_of_less [of i] by (auto simp: p_def)
  have w: "\<And>k. w ! k = (if k = i then v ! p else if k = p then v ! i else v ! k)"
    using p i by (simp add: w_def nth_std_swap)
  have len: "length w = length v" by (simp add: w_def)
  from lt have lt': "key (v ! p) < key (v ! i)" by (simp add: p_def)
  from inv have A: "\<And>j. j < length v \<Longrightarrow> 0 < j \<Longrightarrow> j \<noteq> i \<Longrightarrow> key (v ! j) \<le> key (v ! parent_of j)"
    and B: "\<And>j. j < length v \<Longrightarrow> 0 < j \<Longrightarrow> parent_of j = i \<Longrightarrow> key (v ! j) \<le> key (v ! p)"
    using i by (auto simp: sift_up_inv_def below_parent_def p_def)
  have 1: "below_parent w j" if j: "j < length w" "0 < j" "j \<noteq> p" for j
  proof -
    define q where "q = parent_of j"
    from j have qj: "q < j" using parent_of_less [of j] by (simp add: q_def)
    have "key (w ! j) \<le> key (w ! q)"
    proof (cases "j = i")
      case True
      then have "q = p" by (simp add: q_def p_def)
      with True lt' p show ?thesis by (simp add: w)
    next
      case False
      with j len have a: "key (v ! j) \<le> key (v ! q)" by (simp add: A q_def)
      consider "q = p" | "q = i" | "q \<noteq> p" "q \<noteq> i" by blast
      then show ?thesis
      proof cases
        case 1
        with a lt' False j show ?thesis by (simp add: w)
      next
        case 2
        with j len have "key (v ! j) \<le> key (v ! p)" by (simp add: B q_def)
        with 2 False j p show ?thesis by (simp add: w)
      next
        case 3
        with a False j show ?thesis by (simp add: w)
      qed
    qed
    then show ?thesis by (simp add: below_parent_def q_def)
  qed
  have 2: "key (w ! j) \<le> key (w ! parent_of p)"
    if j: "j < length w" "0 < j" "parent_of j = p" "0 < p" for j
  proof -
    define g where "g = parent_of p"
    from j have g: "g < p" using parent_of_less [of p] by (simp add: g_def)
    from j p have pg: "key (v ! p) \<le> key (v ! g)" by (simp add: A g_def)
    from g p have wg: "w ! g = v ! g" by (simp add: w)
    have "key (w ! j) \<le> key (w ! g)"
    proof (cases "j = i")
      case True
      with pg wg show ?thesis by (simp add: w)
    next
      case False
      with j len have "key (v ! j) \<le> key (v ! p)" using A [of j] by simp
      moreover from j have "j \<noteq> p" using parent_of_less [of j] by auto
      ultimately show ?thesis using pg wg False by (simp add: w)
    qed
    then show ?thesis by (simp add: g_def)
  qed
  from 1 2 show ?thesis
    unfolding sift_up_inv_def w_def [symmetric] p_def [symmetric] by blast
qed

lemma sift_down_done:
  assumes "sift_down_inv v i"
    and "\<forall>j < length v. 0 < j \<and> parent_of j = i \<longrightarrow> key (v ! j) \<le> key (v ! i)"
  shows "max_heap v"
  unfolding max_heap_iff
proof (intro allI impI)
  fix j assume j: "j < length v" "0 < j"
  show "below_parent v j"
  proof (cases "parent_of j = i")
    case True
    with assms(2) j show ?thesis by (auto simp: below_parent_def)
  next
    case False
    with assms(1) j show ?thesis by (simp add: sift_down_inv_def)
  qed
qed

lemma sift_down_step:
  assumes inv: "sift_down_inv v i" and c: "c < length v" "0 < c" "parent_of c = i"
    and lt: "key (v ! i) < key (v ! c)"
    and big: "\<forall>j < length v. 0 < j \<and> parent_of j = i \<longrightarrow> key (v ! j) \<le> key (v ! c)"
  shows "sift_down_inv (std_swap v i c) c"
proof -
  define w where "w = std_swap v i c"
  from c have i: "i < c" "i < length v"
    using parent_of_less [of c] by auto
  have w: "\<And>k. w ! k = (if k = c then v ! i else if k = i then v ! c else v ! k)"
    using i c by (simp add: w_def nth_std_swap)
  have len: "length w = length v" by (simp add: w_def)
  from inv have A: "\<And>j. j < length v \<Longrightarrow> 0 < j \<Longrightarrow> parent_of j \<noteq> i \<Longrightarrow> key (v ! j) \<le> key (v ! parent_of j)"
    and B: "\<And>j. j < length v \<Longrightarrow> 0 < j \<Longrightarrow> parent_of j = i \<Longrightarrow> 0 < i \<Longrightarrow> key (v ! j) \<le> key (v ! parent_of i)"
    by (auto simp: sift_down_inv_def below_parent_def)
  have 1: "below_parent w j" if j: "j < length w" "0 < j" "parent_of j \<noteq> c" for j
  proof -
    define q where "q = parent_of j"
    from j have qj: "q < j" using parent_of_less [of j] by (simp add: q_def)
    have "key (w ! j) \<le> key (w ! q)"
    proof (cases "q = i")
      case True
      show ?thesis
      proof (cases "j = c")
        case True
        with \<open>q = i\<close> lt i show ?thesis by (simp add: w)
      next
        case False
        from j len True have "key (v ! j) \<le> key (v ! c)" using big by (simp add: q_def)
        with False True qj show ?thesis by (simp add: w)
      qed
    next
      case False
      with j c have jc: "j \<noteq> c" by (auto simp: q_def)
      from j have qc: "q \<noteq> c" by (simp add: q_def)
      show ?thesis
      proof (cases "j = i")
        case True
        with j have "0 < i" by simp
        with c len have "key (v ! c) \<le> key (v ! parent_of i)" by (simp add: B)
        with True jc False qc show ?thesis by (simp add: w q_def)
      next
        case ji: False
        from j len False have "key (v ! j) \<le> key (v ! q)" by (simp add: A q_def)
        with ji jc False qc show ?thesis by (simp add: w)
      qed
    qed
    then show ?thesis by (simp add: below_parent_def q_def)
  qed
  have 2: "key (w ! j) \<le> key (w ! parent_of c)"
    if j: "j < length w" "0 < j" "parent_of j = c" for j
  proof -
    from j have cj: "c < j" using parent_of_less [of j] by simp
    with i have "j \<noteq> c" "j \<noteq> i" by auto
    moreover from j len i have "key (v ! j) \<le> key (v ! c)"
      using A [of j] by simp
    ultimately show ?thesis using c by (simp add: w)
  qed
  from 1 2 show ?thesis
    unfolding sift_down_inv_def w_def [symmetric] by blast
qed

subsection \<open>The sift procedures restore the heap\<close>

lemma unat_parent: "index \<noteq> 0 \<Longrightarrow> unat ((index - 1) div 2 :: u32) = parent_of (unat index)"
  by (simp add: unat_div unat_minus_one parent_of_def)

lemma unat_left: "2 * unat i + 2 < 2 ^ 32 \<Longrightarrow> unat (2 * i + 1 :: u32) = 2 * unat i + 1"
  by (simp add: unat_word_ariths take_bit_nat_eq_self)

lemma unat_right: "2 * unat i + 2 < 2 ^ 32 \<Longrightarrow> unat (2 * i + 2 :: u32) = 2 * unat i + 2"
  by (simp add: unat_word_ariths take_bit_nat_eq_self)

text \<open>The recursive call of \<open>heapifyUp\<close> is on a strictly smaller index; the recursive
  call of \<open>heapifyDown\<close> is on a strictly greater one as long as the child indices do
  not wrap around.\<close>

lemma heapifyUp_index_decreases: "index \<noteq> 0 \<Longrightarrow> (index - 1) div 2 < (index :: u32)"
  using parent_of_less [of "unat index"]
  by (simp add: word_less_nat_alt unat_parent unat_gt_0)

lemma heapifyUp_length: "heapifyUp requests index = Ok v \<Longrightarrow> length v = length requests"
  using heapifyUp_mset [of requests index v] by (metis size_mset)

lemma heapifyDown_length: "heapifyDown requests index = Some (Ok v) \<Longrightarrow> length v = length requests"
  using heapifyDown_mset [of requests index "Ok v" v] by (metis size_mset)

lemma heapifyUp_max_heap:
  assumes "unat index < length requests" "sift_up_inv requests (unat index)"
  shows "\<exists>v. heapifyUp requests index = Ok v \<and> max_heap v"
  using assms
proof (induction requests index rule: heapifyUp.induct)
  case (1 requests index)
  show ?case
  proof (cases "index = 0")
    case True
    with "1.prems" sift_up_done [of requests 0] show ?thesis
      by (simp add: heapifyUp.simps)
  next
    case False
    define parent where "parent = (index - 1) div 2"
    from False have up: "unat parent = parent_of (unat index)"
      by (simp add: parent_def unat_parent)
    from False have pos: "0 < unat index"
      by (simp add: unat_gt_0)
    with "1.prems" have inr: "unat parent < length requests"
      using parent_of_less [of "unat index"] by (simp add: up)
    show ?thesis
    proof (cases "less_req (requests ! unat parent) (requests ! unat index)")
      case True
      then have lt: "key (requests ! parent_of (unat index)) < key (requests ! unat index)"
        by (simp add: less_req_key up)
      from sift_up_step [OF "1.prems"(2,1) pos lt]
      have "sift_up_inv (std_swap requests (unat parent) (unat index)) (unat parent)"
        by (simp add: up)
      with "1.IH" [OF False parent_def] True inr "1.prems"(1)
      have "\<exists>v. heapifyUp (std_swap requests (unat parent) (unat index)) parent = Ok v \<and> max_heap v"
        by simp
      with True False inr "1.prems"(1) show ?thesis
        by (simp add: heapifyUp.simps [of requests index] parent_def Let_def)
    next
      case nl: False
      then have "\<not> key (requests ! parent_of (unat index)) < key (requests ! unat index)"
        by (simp add: less_req_key up)
      with "1.prems" have "max_heap requests"
        using sift_up_done [of requests "unat index"] by simp
      with nl False inr "1.prems"(1) show ?thesis
        by (simp add: heapifyUp.simps [of requests index] parent_def Let_def)
    qed
  qed
qed

lemma chosen_large_spec:
  assumes i: "unat i < length v" and nowrap: "2 * unat i + 2 < 2 ^ 32"
  shows "\<exists>large. chosen_large v i = Ok large \<and>
      (large = i \<and> (\<forall>j < length v. 0 < j \<and> parent_of j = unat i \<longrightarrow> key (v ! j) \<le> key (v ! unat i))
     \<or> large \<noteq> i \<and> unat large < length v \<and> 0 < unat large \<and> parent_of (unat large) = unat i
        \<and> key (v ! unat i) < key (v ! unat large)
        \<and> (\<forall>j < length v. 0 < j \<and> parent_of j = unat i \<longrightarrow> key (v ! j) \<le> key (v ! unat large)))"
proof -
  define l where "l = 2 * unat i + 1"
  define r where "r = 2 * unat i + 2"
  have ul: "unat (2 * i + 1) = l" and ur: "unat (2 * i + 2) = r"
    using nowrap by (simp_all add: l_def r_def unat_left unat_right)
  have kids: "j = l \<or> j = r" if "0 < j" "parent_of j = unat i" for j
    using child_cases [OF that(1)] that(2) by (simp add: l_def r_def)
  have pl: "parent_of l = unat i" "parent_of r = unat i" "0 < l" "0 < r" "l < r"
    unfolding l_def r_def by (simp_all add: parent_of_def)
  have "unat (2 * i + 1) \<noteq> unat i" "unat (2 * i + 2) \<noteq> unat i"
    unfolding ul ur l_def r_def by linarith+
  then have ne: "2 * i + 1 \<noteq> i" "2 * i + 2 \<noteq> i"
    by metis+
  consider (a) "l < length v" "key (v ! unat i) < key (v ! l)" "r < length v" "key (v ! l) < key (v ! r)"
    | (b) "l < length v" "key (v ! unat i) < key (v ! l)" "\<not> (r < length v \<and> key (v ! l) < key (v ! r))"
    | (c) "\<not> (l < length v \<and> key (v ! unat i) < key (v ! l))" "r < length v" "key (v ! unat i) < key (v ! r)"
    | (d) "\<not> (l < length v \<and> key (v ! unat i) < key (v ! l))" "\<not> (r < length v \<and> key (v ! unat i) < key (v ! r))"
    by blast
  then show ?thesis
  proof cases
    case a
    then have "chosen_large v i = Ok (2 * i + 2)"
      using i by (simp add: chosen_large_def Let_def ul ur greater_req_key)
    moreover have "key (v ! j) \<le> key (v ! r)" if "j < length v" "0 < j" "parent_of j = unat i" for j
      using kids [OF that(2,3)] that(1) a pl by auto
    then have "\<forall>j < length v. 0 < j \<and> parent_of j = unat i \<longrightarrow> key (v ! j) \<le> key (v ! r)"
      by blast
    ultimately show ?thesis
      using a ne pl by (simp add: ur)
  next
    case b
    then have "chosen_large v i = Ok (2 * i + 1)"
      using i by (auto simp: chosen_large_def Let_def ul ur greater_req_key)
    moreover have "key (v ! j) \<le> key (v ! l)" if "j < length v" "0 < j" "parent_of j = unat i" for j
      using kids [OF that(2,3)] that(1) b pl by auto
    then have "\<forall>j < length v. 0 < j \<and> parent_of j = unat i \<longrightarrow> key (v ! j) \<le> key (v ! l)"
      by blast
    ultimately show ?thesis
      using b ne pl by (simp add: ul)
  next
    case c
    then have "chosen_large v i = Ok (2 * i + 2)"
      using i by (auto simp: chosen_large_def Let_def ul ur greater_req_key)
    moreover have "key (v ! j) \<le> key (v ! r)" if "j < length v" "0 < j" "parent_of j = unat i" for j
      using kids [OF that(2,3)] that(1) c pl by auto
    then have "\<forall>j < length v. 0 < j \<and> parent_of j = unat i \<longrightarrow> key (v ! j) \<le> key (v ! r)"
      by blast
    ultimately show ?thesis
      using c ne pl by (simp add: ur)
  next
    case d
    then have "chosen_large v i = Ok i"
      using i by (auto simp: chosen_large_def Let_def ul ur greater_req_key)
    moreover have "key (v ! j) \<le> key (v ! unat i)" if "j < length v" "0 < j" "parent_of j = unat i" for j
      using kids [OF that(2,3)] that(1) d pl by auto
    then have "\<forall>j < length v. 0 < j \<and> parent_of j = unat i \<longrightarrow> key (v ! j) \<le> key (v ! unat i)"
      by blast
    ultimately show ?thesis
      by simp
  qed
qed

lemma heapifyDown_index_increases:
  assumes "unat i < length v" "2 * unat i + 2 < 2 ^ 32" "chosen_large v i = Ok large" "large \<noteq> i"
  shows "i < large"
proof -
  from chosen_large_spec [OF assms(1,2)] assms(3,4)
  have "0 < unat large" "parent_of (unat large) = unat i" by auto
  with parent_of_less [of "unat large"] show ?thesis
    by (simp add: word_less_nat_alt)
qed

lemma chosen_large_outside:
  assumes "\<not> unat i < length v"
  shows "chosen_large v i = UB \<or> chosen_large v i = Ok i"
  using assms by (simp add: chosen_large_def Let_def)

text \<open>On a vector of fewer than \<open>2 ^ 31\<close> requests no child index wraps around:
  \<open>heapifyDown\<close> returns from every index, and from an index inside the vector where its
  invariant holds it returns a max-heap.\<close>

lemma heapifyDown_returns:
  assumes "length v < 2 ^ 31"
  shows "\<exists>r. heapifyDown v i = Some r
      \<and> (unat i < length v \<and> sift_down_inv v (unat i) \<longrightarrow> (\<exists>w. r = Ok w \<and> max_heap w))"
  using assms
proof (induction "length v - unat i" arbitrary: v i rule: less_induct)
  case less
  show ?case
  proof (cases "unat i < length v")
    case False
    with chosen_large_outside [of i v] show ?thesis
      by (subst heapifyDown_unfold) auto
  next
    case True
    with less.prems have "2 * unat i + 2 < 2 ^ 32" by simp
    from chosen_large_spec [OF True this] obtain large where
      cl: "chosen_large v i = Ok large"
      and alt: "large = i \<and> (\<forall>j < length v. 0 < j \<and> parent_of j = unat i \<longrightarrow> key (v ! j) \<le> key (v ! unat i))
     \<or> large \<noteq> i \<and> unat large < length v \<and> 0 < unat large \<and> parent_of (unat large) = unat i
        \<and> key (v ! unat i) < key (v ! unat large)
        \<and> (\<forall>j < length v. 0 < j \<and> parent_of j = unat i \<longrightarrow> key (v ! j) \<le> key (v ! unat large))"
      by blast
    show ?thesis
    proof (cases "large = i")
      case same: True
      with alt have "sift_down_inv v (unat i) \<longrightarrow> max_heap v"
        using sift_down_done [of v "unat i"] by blast
      with cl same show ?thesis
        by (subst heapifyDown_unfold) simp
    next
      case diff: False
      define w where "w = std_swap v (unat i) (unat large)"
      from diff alt have L: "unat large < length v" "0 < unat large" "parent_of (unat large) = unat i"
        "key (v ! unat i) < key (v ! unat large)"
        "\<forall>j < length v. 0 < j \<and> parent_of j = unat i \<longrightarrow> key (v ! j) \<le> key (v ! unat large)"
        by auto
      from L have gt: "unat i < unat large"
        using parent_of_less [of "unat large"] by simp
      with L have "length w - unat large < length v - unat i"
        by (simp add: w_def)
      moreover from less.prems have "length w < 2 ^ 31" by (simp add: w_def)
      ultimately obtain r where r: "heapifyDown w large = Some r"
        and rr: "unat large < length w \<and> sift_down_inv w (unat large) \<longrightarrow> (\<exists>u. r = Ok u \<and> max_heap u)"
        using less.hyps [of w large] by blast
      have "sift_down_inv v (unat i) \<longrightarrow> sift_down_inv w (unat large)"
        using sift_down_step [of v "unat i" "unat large"] L by (simp add: w_def)
      with rr L have "sift_down_inv v (unat i) \<longrightarrow> (\<exists>u. r = Ok u \<and> max_heap u)"
        by (simp add: w_def)
      with cl diff r show ?thesis
        by (subst heapifyDown_unfold) (simp add: w_def)
    qed
  qed
qed

subsection \<open>Push and pop on one vector\<close>

text \<open>\<open>heapifyUp\<close> from an index inside the vector reads inside the vector only.\<close>

lemma heapifyUp_returns:
  assumes "unat index < length requests"
  shows "\<exists>v. heapifyUp requests index = Ok v"
  using assms
proof (induction requests index rule: heapifyUp.induct)
  case (1 requests index)
  show ?case
  proof (cases "index = 0")
    case True
    then show ?thesis by (simp add: heapifyUp.simps)
  next
    case False
    define parent where "parent = (index - 1) div 2"
    from False have "unat parent = parent_of (unat index)" "0 < unat index"
      by (simp_all add: parent_def unat_parent unat_gt_0)
    with "1.prems" have inr: "unat parent < length requests"
      using parent_of_less [of "unat index"] by simp
    show ?thesis
    proof (cases "less_req (requests ! unat parent) (requests ! unat index)")
      case True
      with "1.IH" [OF False parent_def] inr "1.prems"
      have "\<exists>v. heapifyUp (std_swap requests (unat parent) (unat index)) parent = Ok v"
        by simp
      with True False inr "1.prems" show ?thesis
        by (simp add: heapifyUp.simps [of requests index] parent_def Let_def)
    next
      case nl: False
      with False inr "1.prems" show ?thesis
        by (simp add: heapifyUp.simps [of requests index] parent_def Let_def)
    qed
  qed
qed

lemma unat_last_index: "unat (word_of_nat n :: u32) \<le> n"
  by (simp add: unat_of_nat)

lemma push_vector_returns:
  "\<exists>w. push_vector v r = Ok w \<and> length w = Suc (length v) \<and> mset w = add_mset r (mset v)"
proof -
  have "unat (word_of_nat (length v) :: u32) < length (v @ [r])"
    using unat_last_index [of "length v"] by simp
  from heapifyUp_returns [OF this] obtain w
    where w: "heapifyUp (v @ [r]) (word_of_nat (length v)) = Ok w" by blast
  from heapifyUp_mset [OF w] heapifyUp_length [OF w] w show ?thesis
    by (simp add: push_vector_def)
qed

lemma sift_up_inv_append:
  assumes "max_heap v"
  shows "sift_up_inv (v @ [r]) (length v)"
  unfolding sift_up_inv_def
proof (intro conjI allI impI)
  fix j assume "j < length (v @ [r])" "0 < j \<and> j \<noteq> length v"
  then have j: "j < length v" "0 < j" by auto
  with assms have "below_parent v j" by (simp add: max_heap_iff)
  with j parent_of_less [of j] show "below_parent (v @ [r]) j"
    by (simp add: below_parent_def nth_append)
next
  fix j assume "j < length (v @ [r])" "0 < j \<and> parent_of j = length v \<and> 0 < length v"
  with parent_of_less [of j] have False by auto
  then show "key ((v @ [r]) ! j) \<le> key ((v @ [r]) ! parent_of (length v))" ..
qed

lemma push_vector_max_heap:
  assumes "max_heap v" "length v < 2 ^ 32"
  shows "\<exists>w. push_vector v r = Ok w \<and> max_heap w"
proof -
  from assms(2) have u: "unat (word_of_nat (length v) :: u32) = length v"
    by (simp add: unat_of_nat take_bit_nat_eq_self)
  from heapifyUp_max_heap [of "word_of_nat (length v)" "v @ [r]"] sift_up_inv_append [OF assms(1)]
  show ?thesis by (simp add: push_vector_def u)
qed

lemma mset_pop_front:
  assumes "v \<noteq> []"
  shows "mset (butlast (v[0 := last v])) = mset v - {#v ! 0#}"
proof (cases v)
  case Nil
  with assms show ?thesis by simp
next
  case (Cons x xs)
  show ?thesis
  proof (cases "xs = []")
    case True
    with Cons show ?thesis by simp
  next
    case False
    then have "mset xs = add_mset (last xs) (mset (butlast xs))"
      by (metis append_butlast_last_id mset.simps(1,2) union_mset_add_mset_right add.right_neutral mset_append)
    with Cons False show ?thesis by simp
  qed
qed

lemma sift_down_inv_pop:
  assumes "max_heap v" "v \<noteq> []"
  shows "sift_down_inv (butlast (v[0 := last v])) 0"
proof -
  define w where "w = butlast (v[0 := last v])"
  have len: "length w = length v - 1" by (simp add: w_def)
  have nth: "w ! j = v ! j" if "0 < j" "j < length w" for j
    using that len by (simp add: w_def nth_butlast)
  have "below_parent w j" if j: "j < length w" "0 < j" "parent_of j \<noteq> 0" for j
  proof -
    from j len assms(1) have "below_parent v j" by (simp add: max_heap_iff)
    moreover from j parent_of_less [of j] have "w ! parent_of j = v ! parent_of j"
      by (intro nth) auto
    ultimately show ?thesis using j by (simp add: below_parent_def nth)
  qed
  then show ?thesis
    unfolding sift_down_inv_def w_def [symmetric] by blast
qed

lemma pop_vector_length:
  assumes "pop_vector v = Some (Ok w)"
  shows "v \<noteq> [] \<and> length w = length v - 1 \<and> mset w = mset v - {#v ! 0#}"
proof -
  from assms have ne: "v \<noteq> []" and h: "heapifyDown (butlast (v[0 := last v])) 0 = Some (Ok w)"
    by (auto simp: pop_vector_def split: if_splits)
  from heapifyDown_mset [OF h] heapifyDown_length [OF h] ne show ?thesis
    by (simp add: mset_pop_front)
qed

lemma max_heap_Nil: "max_heap []"
  by (simp add: max_heap_def)

lemma pop_vector_max_heap:
  assumes "max_heap v" "v \<noteq> []" "length v \<le> 2 ^ 31"
  shows "\<exists>w. pop_vector v = Some (Ok w) \<and> max_heap w"
proof -
  define u where "u = butlast (v[0 := last v])"
  show ?thesis
  proof (cases "u = []")
    case True
    with assms(2) show ?thesis
      by (simp add: pop_vector_def u_def [symmetric] heapifyDown_Nil max_heap_Nil)
  next
    case False
    from assms have "length u < 2 ^ 31" by (cases v) (auto simp: u_def)
    from heapifyDown_returns [OF this, of 0] obtain r where
      r: "heapifyDown u 0 = Some r"
      and rr: "unat (0 :: u32) < length u \<and> sift_down_inv u (unat (0 :: u32)) \<longrightarrow> (\<exists>w. r = Ok w \<and> max_heap w)"
      by blast
    from False have "0 < length u" by simp
    with sift_down_inv_pop [OF assms(1,2)] rr have "\<exists>w. r = Ok w \<and> max_heap w"
      by (simp add: u_def [symmetric])
    with r assms(2) show ?thesis
      by (auto simp: pop_vector_def u_def)
  qed
qed

lemma root_is_max:
  assumes "max_heap v" "j < length v"
  shows "key (v ! j) \<le> key (v ! 0)"
  using assms(2)
proof (induction j rule: less_induct)
  case (less j)
  show ?case
  proof (cases "j = 0")
    case True
    then show ?thesis by simp
  next
    case False
    with less.prems assms(1) have "key (v ! j) \<le> key (v ! parent_of j)"
      by (simp add: max_heap_iff below_parent_def)
    moreover from False less.prems have "key (v ! parent_of j) \<le> key (v ! 0)"
      using parent_of_less [of j] by (intro less.IH) auto
    ultimately show ?thesis by simp
  qed
qed

subsection \<open>Invariants of the reachable queues\<close>

lemma initializeQueues_replicate: "initializeQueues n xs = xs @ replicate n []"
  by (induction n arbitrary: xs) (simp_all add: replicate_append_same)

lemma sum_length_update:
  "k < length xs \<Longrightarrow>
   sum_list (map length (xs[k := w])) + length (xs ! k) = sum_list (map length xs) + length w"
  by (induction xs arbitrary: k) (auto split: nat.splits)

lemma length_le_total: "k < length (allRequests q) \<Longrightarrow> length (allRequests q ! k) \<le> total_size q"
  unfolding total_size_def using elem_le_sum_list [of k "map length (allRequests q)"] by simp

lemma push_cases:
  assumes "push request q = Ok q'"
  obtains k w where "group_index q (Request.groupId request) = Some k"
    "k < length (allRequests q)"
    "push_vector (allRequests q ! k) request = Ok w"
    "q' = q\<lparr>currentSize := currentSize q + 1, allRequests := (allRequests q)[k := w]\<rparr>"
  using assms group_index_lt [of q "Request.groupId request"]
  by (auto simp: push_def split: option.splits result.splits)

lemma pop_cases:
  assumes "pop g q = Some (Ok q')"
  obtains k w where "group_index q g = Some k"
    "k < length (allRequests q)"
    "pop_vector (allRequests q ! k) = Some (Ok w)"
    "q' = q\<lparr>currentSize := currentSize q - 1, allRequests := (allRequests q)[k := w]\<rparr>"
  using assms group_index_lt [of q g]
  by (auto simp: pop_def split: option.splits result.splits)

lemma total_size_push:
  assumes "k < length (allRequests q)" "length w = Suc (length (allRequests q ! k))"
  shows "total_size (q\<lparr>currentSize := c, allRequests := (allRequests q)[k := w]\<rparr>) = Suc (total_size q)"
  using sum_length_update [OF assms(1), of w] assms(2) by (simp add: total_size_def)

lemma total_size_pop:
  assumes "k < length (allRequests q)" "allRequests q ! k \<noteq> []"
    "length w = length (allRequests q ! k) - 1"
  shows "Suc (total_size (q\<lparr>currentSize := c, allRequests := (allRequests q)[k := w]\<rparr>)) = total_size q"
proof -
  define a where "a = sum_list (map length ((allRequests q)[k := w]))"
  define b where "b = sum_list (map length (allRequests q))"
  define l where "l = length (allRequests q ! k)"
  from assms(2) have "0 < l" by (simp add: l_def)
  moreover from sum_length_update [OF assms(1), of w] assms(3) have "a + l = b + (l - 1)"
    by (simp add: a_def b_def l_def)
  ultimately have "Suc a = b" by linarith
  then show ?thesis
    by (simp add: total_size_def a_def b_def)
qed

lemma unat_inc:
  fixes c d :: u32
  assumes "c < d"
  shows "unat (c + 1) = Suc (unat c)"
proof -
  from assms have "unat c < unat d" by (simp add: word_less_nat_alt)
  moreover have "unat d < 2 ^ 32" using unsigned_less [of d] by simp
  ultimately have "unat c + unat (1 :: u32) < 2 ^ LENGTH(32)" by simp
  then have "unat (c + 1) = unat c + unat (1 :: u32)" by (simp only: unat_add_lem)
  then show ?thesis by simp
qed

lemma heaps_ok_update:
  assumes "heaps_ok q" "max_heap w"
  shows "heaps_ok (q\<lparr>currentSize := c, allRequests := (allRequests q)[k := w]\<rparr>)"
  using assms by (cases "k < length (allRequests q)") (simp_all add: heaps_ok_def nth_list_update)

lemma reachable_invariant:
  assumes "reachable cap numOfGroups q"
  shows "capacity q = cap \<and> unat (currentSize q) = total_size q \<and> currentSize q \<le> capacity q"
  using assms
proof (induction rule: reachable.induct)
  case initial
  show ?case
    by (simp add: new_RequestQueue_def total_size_def initializeQueues_replicate)
next
  case (after_push q request q')
  from after_push.hyps(3) obtain k w where
    k: "k < length (allRequests q)"
    and w: "push_vector (allRequests q ! k) request = Ok w"
    and q': "q' = q\<lparr>currentSize := currentSize q + 1, allRequests := (allRequests q)[k := w]\<rparr>"
    by (rule push_cases)
  from push_vector_returns [of "allRequests q ! k" request] w
  have len: "length w = Suc (length (allRequests q ! k))" by simp
  from after_push.IH have I: "capacity q = cap" "unat (currentSize q) = total_size q"
    "currentSize q \<le> capacity q" by blast+
  from I(3) after_push.hyps(2) have lt: "currentSize q < capacity q"
    by (auto simp: isFull_def)
  then have "unat (currentSize q + 1) = Suc (unat (currentSize q))" by (rule unat_inc)
  moreover from lt have "currentSize q + 1 \<le> capacity q" by (rule inc_le)
  ultimately show ?case
    using I total_size_push [OF k len] by (simp add: q')
next
  case (after_pop q g q')
  from after_pop.hyps(3) obtain k w where
    g: "group_index q g = Some k"
    and k: "k < length (allRequests q)"
    and w: "pop_vector (allRequests q ! k) = Some (Ok w)"
    and q': "q' = q\<lparr>currentSize := currentSize q - 1, allRequests := (allRequests q)[k := w]\<rparr>"
    by (rule pop_cases)
  from pop_vector_length [OF w]
  have ne: "allRequests q ! k \<noteq> []" and len: "length w = length (allRequests q ! k) - 1" by simp_all
  from after_pop.IH have I: "capacity q = cap" "unat (currentSize q) = total_size q"
    "currentSize q \<le> capacity q" by blast+
  from total_size_pop [OF k ne len]
  have ts: "Suc (total_size q') = total_size q" by (simp add: q')
  with I have "unat (currentSize q) \<noteq> 0" by simp
  then have nz: "currentSize q \<noteq> 0" by (simp add: unat_eq_zero)
  then have u: "unat (currentSize q - 1) = unat (currentSize q) - 1" by (simp add: unat_minus_one)
  then have "currentSize q - 1 \<le> currentSize q" by (simp add: word_le_nat_alt)
  with I(3) have "currentSize q - 1 \<le> capacity q" by (rule order_trans [rotated])
  with I ts u show ?case
    by (simp add: q')
qed

lemma reachable_heaps:
  assumes "reachable cap numOfGroups q" "unat cap \<le> 2 ^ 31"
  shows "heaps_ok q"
  using assms
proof (induction rule: reachable.induct)
  case initial
  show ?case
    by (simp add: heaps_ok_def new_RequestQueue_def initializeQueues_replicate max_heap_Nil)
next
  case (after_push q request q')
  from after_push.hyps(3) obtain k w where
    k: "k < length (allRequests q)"
    and w: "push_vector (allRequests q ! k) request = Ok w"
    and q': "q' = q\<lparr>currentSize := currentSize q + 1, allRequests := (allRequests q)[k := w]\<rparr>"
    by (rule push_cases)
  from reachable_invariant [OF after_push.hyps(1)] length_le_total [OF k]
  have "length (allRequests q ! k) \<le> unat (currentSize q)" by simp
  also have "\<dots> < 2 ^ 32" using unsigned_less [of "currentSize q"] by simp
  finally have "length (allRequests q ! k) < 2 ^ 32" .
  moreover from after_push.IH after_push.prems k have "max_heap (allRequests q ! k)"
    by (simp add: heaps_ok_def)
  ultimately have "max_heap w"
    using push_vector_max_heap [of "allRequests q ! k" request] w by auto
  with after_push.IH after_push.prems show ?case
    by (simp add: q' heaps_ok_update)
next
  case (after_pop q g q')
  from after_pop.hyps(3) obtain k w where
    k: "k < length (allRequests q)"
    and w: "pop_vector (allRequests q ! k) = Some (Ok w)"
    and q': "q' = q\<lparr>currentSize := currentSize q - 1, allRequests := (allRequests q)[k := w]\<rparr>"
    by (rule pop_cases)
  from reachable_invariant [OF after_pop.hyps(1)] length_le_total [OF k]
  have "length (allRequests q ! k) \<le> unat (currentSize q)" "currentSize q \<le> cap" by auto
  with after_pop.prems have "length (allRequests q ! k) \<le> 2 ^ 31"
    by (simp add: word_le_nat_alt)
  moreover from after_pop.IH after_pop.prems k have "max_heap (allRequests q ! k)"
    by (simp add: heaps_ok_def)
  moreover from pop_vector_length [OF w] have "allRequests q ! k \<noteq> []" by simp
  ultimately have "max_heap w"
    using pop_vector_max_heap [of "allRequests q ! k"] w by auto
  with after_pop.IH after_pop.prems show ?case
    by (simp add: q' heaps_ok_update)
qed

text \<open>While the capacity is at most \<open>2 ^ 31\<close>, \<open>top\<close> followed by \<open>pop\<close> on a non-empty
  group of a reachable queue returns, hands out a request whose priority is greatest in
  the group, and removes exactly that request from the group.\<close>

lemma remove_max_bounded:
  assumes r: "reachable cap numOfGroups q" and cap: "unat cap \<le> 2 ^ 31"
    and g: "group_index q g = Some k" and ne: "allRequests q ! k \<noteq> []"
  shows "\<exists>q'. remove_max g q = Some (Ok (allRequests q ! k ! 0, q'))
      \<and> (\<forall>x \<in> set (allRequests q ! k). key x \<le> key (allRequests q ! k ! 0))
      \<and> mset (allRequests q' ! k) = mset (allRequests q ! k) - {#allRequests q ! k ! 0#}
      \<and> reachable cap numOfGroups q'"
proof -
  from g have k: "k < length (allRequests q)" by (rule group_index_lt)
  from reachable_heaps [OF r cap] k have mh: "max_heap (allRequests q ! k)"
    by (simp add: heaps_ok_def)
  from reachable_invariant [OF r] length_le_total [OF k] cap
  have "length (allRequests q ! k) \<le> 2 ^ 31"
    by (auto simp: word_le_nat_alt)
  from pop_vector_max_heap [OF mh ne this] obtain w
    where w: "pop_vector (allRequests q ! k) = Some (Ok w)" by blast
  define q' where "q' = q\<lparr>currentSize := currentSize q - 1, allRequests := (allRequests q)[k := w]\<rparr>"
  from g w have p: "pop g q = Some (Ok q')" by (simp add: pop_def q'_def)
  from g ne have e: "isEmpty g q = Ok False" by (simp add: isEmpty_def)
  from g ne have t: "top_rq g q = Ok (allRequests q ! k ! 0)" by (simp add: top_rq_def)
  have "\<forall>x \<in> set (allRequests q ! k). key x \<le> key (allRequests q ! k ! 0)"
    using root_is_max [OF mh] by (auto simp: in_set_conv_nth)
  moreover from pop_vector_length [OF w] k
  have "mset (allRequests q' ! k) = mset (allRequests q ! k) - {#allRequests q ! k ! 0#}"
    by (simp add: q'_def)
  moreover from r e p have "reachable cap numOfGroups q'" by (rule reachable.after_pop)
  ultimately show ?thesis
    using t p by (auto simp: remove_max_def)
qed

text \<open>A run of pushes and pops that never lets the vector grow beyond \<open>2 ^ 31\<close> requests
  returns, and what it returns is a max-heap.\<close>

lemma run_ops_bounded:
  assumes "max_heap v" "length v + length ops \<le> 2 ^ 31"
  shows "\<exists>r. run_ops ops v = Some r \<and> (\<forall>w. r = Ok w \<longrightarrow> max_heap w)"
  using assms
proof (induction ops arbitrary: v)
  case Nil
  then show ?case by simp
next
  case (Cons op ops)
  show ?case
  proof (cases op)
    case (Push r)
    from Cons.prems have "length v < 2 ^ 32" by simp
    from push_vector_max_heap [OF Cons.prems(1) this, of r] push_vector_returns [of v r]
    obtain w where w: "push_vector v r = Ok w" "max_heap w" "length w = Suc (length v)"
      by auto
    with Cons.prems have "length w + length ops \<le> 2 ^ 31" by simp
    from Cons.IH [OF w(2) this] w(1) Push show ?thesis by simp
  next
    case Pop
    show ?thesis
    proof (cases "v = []")
      case True
      with Pop show ?thesis by (simp add: pop_vector_def)
    next
      case False
      from Cons.prems have "length v \<le> 2 ^ 31" by simp
      from pop_vector_max_heap [OF Cons.prems(1) False this]
      obtain w where w: "pop_vector v = Some (Ok w)" "max_heap w" by blast
      from pop_vector_length [OF w(1)] Cons.prems have "length w + length ops \<le> 2 ^ 31" by simp
      from Cons.IH [OF w(2) this] w(1) Pop show ?thesis by simp
    qed
  qed
qed

subsection \<open>Vectors given by their contents\<close>

lemma length_vec [simp]: "length (vec n f) = n"
  by (simp add: vec_def)

lemma nth_vec [simp]: "i < n \<Longrightarrow> vec n f ! i = f i"
  by (simp add: vec_def)

lemma vec_cong: "(\<And>i. i < n \<Longrightarrow> f i = g i) \<Longrightarrow> vec n f = vec n g"
  by (simp add: vec_def)

lemma std_swap_vec:
  "a < n \<Longrightarrow> c < n \<Longrightarrow> std_swap (vec n f) a c = vec n (f(a := f c, c := f a))"
  by (rule nth_equalityI) (simp_all add: nth_std_swap)

lemma unat_of_nat32: "a < 2 ^ 32 \<Longrightarrow> unat (word_of_nat a :: u32) = a"
  by (simp add: unat_of_nat take_bit_nat_eq_self)

lemma unat_left_of_nat: "unat (2 * word_of_nat a + 1 :: u32) = (2 * a + 1) mod 2 ^ 32"
proof -
  have "(2 * word_of_nat a + 1 :: u32) = word_of_nat (2 * a + 1)" by simp
  then show ?thesis by (simp only: unat_of_nat) simp
qed

lemma unat_right_of_nat: "unat (2 * word_of_nat a + 2 :: u32) = (2 * a + 2) mod 2 ^ 32"
proof -
  have "(2 * word_of_nat a + 2 :: u32) = word_of_nat (2 * a + 2)" by simp
  then show ?thesis by (simp only: unat_of_nat) simp
qed

lemma larger_index_cases:
  "larger_index n f a = a \<or> larger_index n f a = (2 * a + 1) mod 2 ^ 32 \<and> (2 * a + 1) mod 2 ^ 32 < n
    \<or> larger_index n f a = (2 * a + 2) mod 2 ^ 32 \<and> (2 * a + 2) mod 2 ^ 32 < n"
  by (simp add: larger_index_def Let_def)

lemma larger_index_less: "a < n \<Longrightarrow> a < 2 ^ 32 \<Longrightarrow> larger_index n f a < n \<and> larger_index n f a < 2 ^ 32"
  using larger_index_cases [of n f a] by auto

lemma chosen_large_vec:
  assumes "a < n" "a < 2 ^ 32"
  shows "chosen_large (vec n f) (word_of_nat a) = Ok (word_of_nat (larger_index n f a))"
proof -
  define l where "l = (2 * a + 1) mod 2 ^ 32"
  define r where "r = (2 * a + 2) mod 2 ^ 32"
  define i :: u32 where "i = word_of_nat a"
  have ul: "unat (2 * i + 1) = l" and ur: "unat (2 * i + 2) = r"
    by (simp_all only: i_def l_def r_def unat_left_of_nat unat_right_of_nat)
  from assms(2) have ua: "unat i = a"
    by (simp add: i_def unat_of_nat32)
  have wl: "2 * i + 1 = word_of_nat l" and wr: "2 * i + 2 = word_of_nat r"
    by (simp_all only: word_unat_eq_iff ul ur unat_of_nat l_def r_def) simp_all
  have ull: "unat (word_of_nat l :: u32) = l" and urr: "unat (word_of_nat r :: u32) = r"
    by (simp_all add: l_def r_def unat_of_nat32)
  define c where "c = (if l < n \<and> key (f a) < key (f l) then l else a)"
  have c: "c < n" using assms(1) by (simp add: c_def)
  have ucc: "unat (word_of_nat c :: u32) = c"
    using assms(2) by (simp add: c_def l_def unat_of_nat32)
  have 1: "(if unat (2 * i + 1) < length (vec n f)
               \<and> greater_req (vec n f ! unat (2 * i + 1)) (vec n f ! unat i)
            then 2 * i + 1 else i) = word_of_nat c"
    using assms(1) by (simp add: ull ua c_def wl i_def [symmetric] greater_req_key cong: conj_cong)
  have "chosen_large (vec n f) i =
      Ok (if r < n \<and> key (f c) < key (f r) then word_of_nat r else word_of_nat c)"
    unfolding chosen_large_def Let_def 1
    using assms(1,2) c by (simp add: ull urr ucc ua wr greater_req_key cong: conj_cong)
  then show ?thesis
    unfolding i_def larger_index_def Let_def l_def [symmetric] r_def [symmetric] c_def [symmetric]
    by simp
qed

lemma heapifyDown_vec:
  assumes "a < n" "a < 2 ^ 32"
  shows "heapifyDown (vec n f) (word_of_nat a) =
     (let c = larger_index n f a
      in if c = a then Some (Ok (vec n f))
         else heapifyDown (vec n (f(a := f c, c := f a))) (word_of_nat c))"
proof -
  define c where "c = larger_index n f a"
  from larger_index_less [OF assms, of f] have c: "c < n" "c < 2 ^ 32" by (simp_all add: c_def)
  with assms(2) have "(word_of_nat c :: u32) = word_of_nat a \<longleftrightarrow> c = a"
    by (metis unat_of_nat32)
  then show ?thesis
    using assms c
    by (subst heapifyDown_unfold) (simp add: chosen_large_vec c_def [symmetric] Let_def unat_of_nat32 std_swap_vec)
qed

subsection \<open>A pop that never returns\<close>

lemma key_req [simp]: "key (req 1) = 1" "key (req 2) = 2" "key (req 3) = 3"
  by (simp_all add: key_def req_def)

lemma larger_index_spine:
  assumes "1 \<le> p" "p \<le> 2 ^ 30"
  shows "larger_index (2 ^ 31) (single_low (p - 1)) (p - 1) = 2 * p - 1"
proof -
  from assms have l: "(2 * (p - 1) + 1) mod 2 ^ 32 = 2 * p - 1"
    and r: "(2 * (p - 1) + 2) mod 2 ^ 32 = 2 * p" by auto
  from assms have "2 * p - 1 < (2::nat) ^ 31" "2 * p - 1 \<noteq> p - 1" "2 * p \<noteq> p - 1" by auto
  then show ?thesis
    unfolding larger_index_def l r Let_def by (simp add: single_low_def)
qed

lemma larger_index_wrap:
  "larger_index (2 ^ 31) (single_low (2 ^ 31 - 1)) (2 ^ 31 - 1) = 0"
  by (simp add: larger_index_def single_low_def)

lemma single_low_swap:
  "a \<noteq> c \<Longrightarrow> (single_low a)(a := single_low a c, c := single_low a a) = single_low c"
  by (auto simp: single_low_def fun_eq_iff)

lemma on_cycle_step:
  assumes "on_cycle v i"
  shows "\<exists>large. chosen_large v i = Ok large \<and> large \<noteq> i
      \<and> on_cycle (std_swap v (unat i) (unat large)) large"
proof -
  from assms obtain k where k: "k \<le> 31" and v: "v = vec (2 ^ 31) (single_low (2 ^ k - 1))"
    and i: "i = word_of_nat (2 ^ k - 1)"
    by (auto simp: on_cycle_def)
  define a :: nat where "a = 2 ^ k - 1"
  define c where "c = larger_index (2 ^ 31) (single_low a) a"
  from k have "(2::nat) ^ k \<le> 2 ^ 31" by (intro power_increasing) simp_all
  then have a: "a < 2 ^ 31" "a < 2 ^ 32" by (simp_all add: a_def)
  have "\<exists>k' \<le> 31. c = 2 ^ k' - 1 \<and> c \<noteq> a"
  proof (cases "k = 31")
    case True
    then have "c = 2 ^ 0 - 1" "c \<noteq> a"
      using larger_index_wrap by (simp_all add: c_def a_def)
    then show ?thesis by blast
  next
    case False
    with k have "Suc k \<le> 31" "k \<le> 30" by simp_all
    then have "(2::nat) ^ k \<le> 2 ^ 30" by (intro power_increasing) simp_all
    with larger_index_spine [of "2 ^ k"] have "c = 2 ^ Suc k - 1"
      by (simp add: c_def a_def)
    moreover have "1 \<le> (2::nat) ^ k" by simp
    then have "(2::nat) ^ Suc k - 1 \<noteq> 2 ^ k - 1" by (simp only: power_Suc)
    ultimately show ?thesis using \<open>Suc k \<le> 31\<close> unfolding a_def by blast
  qed
  then obtain k' where k': "k' \<le> 31" "c = 2 ^ k' - 1" "c \<noteq> a" by blast
  from larger_index_less [OF a, of "single_low a"] have c: "c < 2 ^ 31" "c < 2 ^ 32"
    by (simp_all add: c_def)
  have cl: "chosen_large v i = Ok (word_of_nat c)"
    unfolding v i a_def [symmetric] c_def by (rule chosen_large_vec [OF a])
  have ne: "(word_of_nat c :: u32) \<noteq> i"
    using k'(3) a(2) c(2) unfolding i a_def [symmetric] by (metis unat_of_nat32)
  have "std_swap v (unat i) (unat (word_of_nat c :: u32)) = vec (2 ^ 31) (single_low c)"
    using a c k'(3) unfolding v i a_def [symmetric]
    by (simp add: unat_of_nat32 std_swap_vec single_low_swap)
  with k' have "on_cycle (std_swap v (unat i) (unat (word_of_nat c :: u32))) (word_of_nat c)"
    unfolding on_cycle_def by blast
  with cl ne show ?thesis by blast
qed

lemma on_cycle_never_returns:
  assumes "on_cycle v i"
  shows "heapifyDown v i = None"
proof (rule ccontr)
  assume "heapifyDown v i \<noteq> None"
  then obtain r where "heapifyDown v i = Some r" by blast
  then have "\<not> on_cycle v i"
  proof (induction rule: heapifyDown_cases)
    case (UB v i)
    then show ?case using on_cycle_step [of v i] by auto
  next
    case (Stop v i)
    then show ?case using on_cycle_step [of v i] by auto
  next
    case (Swap v i large r)
    then show ?case using on_cycle_step [of v i] by auto
  qed
  with assms show False by simp
qed

subsection \<open>A pop that breaks the heap\<close>

lemma spine_eq: "spine = [3, 7, 15, 31, 63, 127, 255, 511, 1023, 2047, 4095, 8191, 16383, 32767, 65535, 131071, 262143, 524287, 1048575, 2097151, 4194303, 8388607, 16777215, 33554431, 67108863, 134217727, 268435455, 536870911, 1073741823, 2147483647]"
  by (simp add: spine_def upt_rec_numeral)

lemma heapifyDown_vec_unat:
  assumes "unat i < n"
  shows "heapifyDown (vec n f) i =
     (let c = larger_index n f (unat i)
      in if c = unat i then Some (Ok (vec n f))
         else heapifyDown (vec n (f(unat i := f c, c := f (unat i)))) (word_of_nat c))"
  using heapifyDown_vec [OF assms, of f] unsigned_less [of i] by simp

lemma vec_Suc: "vec (Suc n) f = vec n f @ [f n]"
  by (simp add: vec_def)

lemma vec_update: "(vec n f)[i := x] = vec n (f(i := x))"
  by (rule nth_equalityI) (simp_all add: nth_list_update)

lemma pop_vector_vec: "pop_vector (vec (Suc n) f) = heapifyDown (vec n (f(0 := f n))) 0"
proof -
  have "butlast ((vec (Suc n) f)[0 := f n]) = vec n (f(0 := f n))"
    by (simp add: vec_update) (simp add: vec_Suc)
  then show ?thesis
    by (simp add: pop_vector_def) (simp add: vec_Suc)
qed

lemma push_vector_vec:
  assumes "n < 2 ^ 32" "n = 0 \<or> key (f n) \<le> key (f (parent_of n))"
  shows "push_vector (vec n f) (f n) = Ok (vec (Suc n) f)"
proof -
  define i :: u32 where "i = word_of_nat n"
  from assms(1) have u: "unat i = n" by (simp add: i_def unat_of_nat32)
  show ?thesis
  proof (cases "n = 0")
    case True
    then show ?thesis by (simp add: push_vector_def heapifyUp.simps vec_Suc)
  next
    case False
    with u have nz: "i \<noteq> 0" by auto
    then have p: "unat ((i - 1) div 2) = parent_of n" by (simp add: unat_parent u)
    from False have "parent_of n < n" by (simp add: parent_of_less)
    with assms(2) False nz show ?thesis
      unfolding push_vector_def Let_def vec_Suc [symmetric]
      by (simp add: i_def [symmetric] heapifyUp.simps [of _ i] p u less_req_key)
  qed
qed

lemma sift_down_big:
  "heapifyDown (vec (2 ^ 31) (big_heap_fn(0 := req 1))) 0 = Some (Ok broken_heap)"
proof -
  have "heapifyDown (vec (2 ^ 31) (big_heap_fn(0 := req 1))) 0 = Some (Ok (vec 2147483648
            (big_heap_fn
             (Suc 0 := req 2, 3 := req 2, 7 := req 2, 15 := req 2,
                31 := req 2, 63 := req 2, 127 := req 2, 255 := req 2,
                511 := req 2, 1023 := req 2, 2047 := req 2, 4095 := req 2,
                8191 := req 2, 16383 := req 2, 32767 := req 2,
                65535 := req 2, 131071 := req 2, 262143 := req 2,
                524287 := req 2, 1048575 := req 2, 2097151 := req 2,
                4194303 := req 2, 8388607 := req 2, 16777215 := req 2,
                33554431 := req 2, 67108863 := req 2, 134217727 := req 2,
                268435455 := req 2, 536870911 := req 2, 1073741823 := req 2,
                2147483647 := req 3, 0 := req 3, Suc (Suc 0) := req 1))))"
    by (simp add: heapifyDown_vec_unat larger_index_def Let_def big_heap_fn_def spine_eq)
  also have "\<dots> = Some (Ok broken_heap)"
    unfolding broken_heap_def
    by (auto intro!: vec_cong simp: big_heap_fn_def spine_eq)
  finally show ?thesis .
qed

lemma spine_parent: "\<forall>j \<in> set spine. parent_of j < 3 \<or> parent_of j \<in> set spine"
  by (simp add: spine_eq parent_of_def)

lemma big_heap_fn_ordered:
  assumes "0 < j"
  shows "key (big_heap_fn j) \<le> key (big_heap_fn (parent_of j))"
proof -
  have low: "1 \<le> key (big_heap_fn i)" for i by (simp add: big_heap_fn_def)
  consider "j < 3" | "\<not> j < 3" "j \<in> set spine" | "\<not> j < 3" "j \<notin> set spine" by blast
  then show ?thesis
  proof cases
    case 1
    with assms have "parent_of j < 3" using parent_of_less [of j] by simp
    with 1 show ?thesis by (simp add: big_heap_fn_def)
  next
    case 2
    with spine_parent have "parent_of j < 3 \<or> parent_of j \<in> set spine" by blast
    with 2 show ?thesis by (auto simp: big_heap_fn_def)
  next
    case 3
    with low [of "parent_of j"] show ?thesis by (simp add: big_heap_fn_def)
  qed
qed

lemma run_ops_append:
  "run_ops (xs @ ys) v =
     (case run_ops xs v of None \<Rightarrow> None | Some UB \<Rightarrow> Some UB | Some (Ok w) \<Rightarrow> run_ops ys w)"
proof (induction xs arbitrary: v)
  case Nil
  show ?case by simp
next
  case (Cons x xs)
  show ?case by (cases x) (simp_all add: Cons.IH split: result.splits option.splits)
qed

lemma run_ops_pushes:
  assumes "n \<le> 2 ^ 32" "\<forall>j < n. 0 < j \<longrightarrow> key (f j) \<le> key (f (parent_of j))"
  shows "run_ops (map Push (vec n f)) [] = Some (Ok (vec n f))"
  using assms
proof (induction n)
  case 0
  show ?case by (simp add: vec_def)
next
  case (Suc n)
  then have "run_ops (map Push (vec n f)) [] = Some (Ok (vec n f))" by simp
  moreover from Suc.prems have "push_vector (vec n f) (f n) = Ok (vec (Suc n) f)"
    by (intro push_vector_vec) auto
  ultimately show ?case
    by (simp add: vec_Suc [of n] run_ops_append)
qed

lemma group_index_full_queue [simp]: "group_index (full_queue n f) 0 = Some 0"
  by (simp add: group_index_def full_queue_def)

lemma groupId_req [simp]: "Request.groupId (req t) = 0"
  by (simp add: req_def)

lemma push_full_queue:
  assumes "n < 2 ^ 32" "n = 0 \<or> key (f n) \<le> key (f (parent_of n))" "Request.groupId (f n) = 0"
  shows "push (f n) (full_queue n f) = Ok (full_queue (Suc n) f)"
proof -
  have "group_index (full_queue n f) (Request.groupId (f n)) = Some 0"
    by (simp add: assms(3))
  moreover have "push_vector (allRequests (full_queue n f) ! 0) (f n) = Ok (vec (Suc n) f)"
    using push_vector_vec [OF assms(1,2)] by (simp add: full_queue_def)
  ultimately show ?thesis
    by (simp add: push_def) (simp add: full_queue_def add.commute)
qed

lemma pop_full_queue:
  assumes "heapifyDown (vec n (f(0 := f n))) 0 = Some (Ok (vec n g))"
  shows "pop 0 (full_queue (Suc n) f) = Some (Ok (full_queue n g))"
proof -
  have "pop_vector (allRequests (full_queue (Suc n) f) ! 0) = Some (Ok (vec n g))"
    using assms by (simp add: full_queue_def pop_vector_vec)
  then show ?thesis
    by (simp add: pop_def) (simp add: full_queue_def)
qed

lemma reachable_full_queue:
  assumes "n \<le> 2 ^ 31 + 1" "\<forall>j. 0 < j \<longrightarrow> key (f j) \<le> key (f (parent_of j))"
    "\<forall>j. Request.groupId (f j) = 0"
  shows "reachable (2 ^ 31 + 1) 1 (full_queue n f)"
  using assms(1)
proof (induction n)
  case 0
  have "full_queue 0 f = new_RequestQueue (2 ^ 31 + 1) 1"
    by (simp add: full_queue_def new_RequestQueue_def vec_def)
  then show ?case by (simp only: reachable.initial)
next
  case (Suc n)
  then have r: "reachable (2 ^ 31 + 1) 1 (full_queue n f)" and n: "n < 2 ^ 31 + 1" by simp_all
  from n have "unat (word_of_nat n :: u32) = n" by (simp add: unat_of_nat32)
  with n have "(word_of_nat n :: u32) \<noteq> 2 ^ 31 + 1" by auto
  then have nf: "\<not> isFull (full_queue n f)" by (simp add: isFull_def full_queue_def)
  from n assms(2,3) have "push (f n) (full_queue n f) = Ok (full_queue (Suc n) f)"
    by (intro push_full_queue) auto
  with r nf show ?case by (rule reachable.after_push)
qed

lemma vec_eq_Nil [simp]: "vec n f = [] \<longleftrightarrow> n = 0"
  by (simp add: vec_def)

lemma isEmpty_full_queue: "0 < n \<Longrightarrow> isEmpty 0 (full_queue n f) = Ok False"
  by (simp add: isEmpty_def) (simp add: full_queue_def)

lemma vec_out_of_range: "vec n (f(n := x)) = vec n f"
  by (rule vec_cong) simp

lemma stuck_vector_vec: "stuck_vector = vec (2 ^ 31 + 1) stuck_fn"
  unfolding stuck_vector_def
  by (rule nth_equalityI) (auto simp: nth_append stuck_fn_def)

lemma stuck_fn_ordered:
  assumes "0 < j"
  shows "key (stuck_fn j) \<le> key (stuck_fn (parent_of j))"
proof (cases "j < 2 ^ 31")
  case True
  with assms parent_of_less [of j] have "parent_of j < 2 ^ 31" by simp
  with True show ?thesis by (simp add: stuck_fn_def)
next
  case False
  then show ?thesis by (simp add: stuck_fn_def)
qed

subsection \<open>Device ids\<close>

lemma device_id_inj:
  assumes "unat numOfGroups * unat numOfDevices \<le> 2 ^ 32"
  shows "inj_on (\<lambda>(i, q). device_id numOfDevices i q)
           ({i. i < numOfGroups} \<times> {q. q < numOfDevices})"
proof (rule inj_onI, clarify)
  fix i q i' q'
  assume h: "i < numOfGroups" "q < numOfDevices" "i' < numOfGroups" "q' < numOfDevices"
    and eq: "device_id numOfDevices i q = device_id numOfDevices i' q'"
  from eq have "unat (device_id numOfDevices i q) = unat (device_id numOfDevices i' q')"
    by simp
  then have "unat i * unat numOfDevices + unat q = unat i' * unat numOfDevices + unat q'"
    using unat_device_id [OF assms h(1,2)] unat_device_id [OF assms h(3,4)] by simp
  moreover from h have "unat q < unat numOfDevices" "unat q' < unat numOfDevices"
    by (simp_all add: word_less_nat_alt)
  ultimately have "unat i = unat i' \<and> unat q = unat q'"
    by (rule quotient_remainder_unique)
  then show "i = i' \<and> q = q'"
    by (simp add: word_unat_eq_iff)
qed

lemma created_devices_product:
  "created_devices numOfGroups numOfDevices =
     map (\<lambda>(i, q). new_Device numOfDevices (word_of_nat i) (word_of_nat q))
       (List.product [0..<unat numOfGroups] [0..<unat numOfDevices])"
proof -
  have "concat (map (\<lambda>i. map (\<lambda>q. f i q) ys) xs) = map (\<lambda>(i, q). f i q) (List.product xs ys)"
    for f :: "nat \<Rightarrow> nat \<Rightarrow> Device" and xs ys
    by (induction xs) (simp_all add: comp_def)
  then show ?thesis by (simp add: created_devices_def)
qed

lemma word_of_nat_less:
  fixes w :: u32
  assumes "n < unat w"
  shows "(word_of_nat n :: u32) < w" "unat (word_of_nat n :: u32) = n"
proof -
  have "unat w < 2 ^ 32" using unsigned_less [of w] by simp
  with assms have "n < 2 ^ 32" by simp
  then show u: "unat (word_of_nat n :: u32) = n"
    by (simp add: unat_of_nat take_bit_nat_eq_self)
  with assms show "(word_of_nat n :: u32) < w" by (simp add: word_less_nat_alt)
qed

lemma created_devices_distinct:
  assumes "unat numOfGroups * unat numOfDevices \<le> 2 ^ 32"
  shows "distinct (map id_dev (created_devices numOfGroups numOfDevices))"
proof -
  let ?P = "List.product [0..<unat numOfGroups] [0..<unat numOfDevices]"
  let ?g = "\<lambda>(i, q). device_id numOfDevices (word_of_nat i) (word_of_nat q)"
  have "map id_dev (created_devices numOfGroups numOfDevices) = map ?g ?P"
    by (simp add: created_devices_product new_Device_def comp_def split_def)
  moreover have "distinct ?P" by (simp add: distinct_product)
  moreover have "inj_on ?g (set ?P)"
  proof (rule inj_onI, clarify)
    fix i q i' q'
    assume m: "(i, q) \<in> set ?P" "(i', q') \<in> set ?P"
      and eq: "device_id numOfDevices (word_of_nat i) (word_of_nat q)
             = device_id numOfDevices (word_of_nat i') (word_of_nat q')"
    from m have b: "i < unat numOfGroups" "q < unat numOfDevices"
      "i' < unat numOfGroups" "q' < unat numOfDevices" by auto
    have "(word_of_nat i :: u32, word_of_nat q :: u32) = (word_of_nat i', word_of_nat q')"
      using device_id_inj [OF assms] eq b
      by (intro inj_onD [where f = "\<lambda>(i, q). device_id numOfDevices i q"])
         (auto simp: word_of_nat_less)
    then have "unat (word_of_nat i :: u32) = unat (word_of_nat i' :: u32)"
      "unat (word_of_nat q :: u32) = unat (word_of_nat q' :: u32)" by simp_all
    with b show "i = i' \<and> q = q'" by (simp add: word_of_nat_less)
  qed
  ultimately show ?thesis by (simp add: distinct_map)
qed

section \<open>The claims\<close>

text \<open>
  C1 fails on the code once a group holds more than \<open>2 ^ 31\<close> requests, where the
  child index \<open>2 * index + 2\<close> of \<open>heapifyDown\<close> wraps around to 0. The queue \<open>bad_queue\<close>
  (capacity \<open>2 ^ 31 + 1\<close>, one group) is reachable by guarded pushes and pops of requests
  of type 1, 2 and 3; its group 0 is not empty; \<open>top\<close> followed by \<open>pop\<close> hands out a
  request of type 2; and a request of type 3, which is greater, is stored in that group.
\<close>

theorem top_is_not_max:
  "reachable (2 ^ 31 + 1) 1 bad_queue
   \<and> isEmpty 0 bad_queue = Ok False
   \<and> remove_max 0 bad_queue = Some (Ok (req 2, after_queue))
   \<and> req 3 \<in> set (allRequests bad_queue ! 0)
   \<and> less_req (req 2) (req 3)"
proof -
  define B where "B = big_heap_fn(1 := req 2, 2 := req 1, 2 ^ 31 - 1 := req 3)"
  define F where "F = big_heap_fn(0 := req 2, 1 := req 2, 2 := req 1, 2 ^ 31 - 1 := req 3)"
  have bh: "broken_heap = vec (2 ^ 31) B" by (simp add: broken_heap_def B_def)
  have bq: "bad_queue = full_queue (2 ^ 31) F" by (simp add: bad_queue_def F_def)
  have 1: "reachable (2 ^ 31 + 1) 1 (full_queue (2 ^ 31 + 1) big_heap_fn)"
    by (rule reachable_full_queue) (simp_all add: big_heap_fn_ordered, simp add: big_heap_fn_def)
  have "heapifyDown (vec (2 ^ 31) (big_heap_fn(0 := big_heap_fn (2 ^ 31)))) 0 = Some (Ok (vec (2 ^ 31) B))"
    using sift_down_big by (simp add: bh big_heap_fn_def spine_eq)
  then have "pop 0 (full_queue (Suc (2 ^ 31)) big_heap_fn) = Some (Ok (full_queue (2 ^ 31) B))"
    by (rule pop_full_queue)
  then have p1: "pop 0 (full_queue (2 ^ 31 + 1) big_heap_fn) = Some (Ok (full_queue (2 ^ 31) B))"
    by simp
  have 2: "reachable (2 ^ 31 + 1) 1 (full_queue (2 ^ 31) B)"
    using 1 isEmpty_full_queue p1 by (rule reachable.after_pop) simp
  define B' where "B' = B(2 ^ 31 := req 2)"
  have fq: "full_queue (2 ^ 31) B' = full_queue (2 ^ 31) B"
    unfolding B'_def full_queue_def by (simp only: vec_out_of_range)
  have "push (B' (2 ^ 31)) (full_queue (2 ^ 31) B') = Ok (full_queue (Suc (2 ^ 31)) B')"
    by (rule push_full_queue)
      (simp_all add: B'_def B_def parent_of_def big_heap_fn_def spine_eq)
  then have p2: "push (req 2) (full_queue (2 ^ 31) B) = Ok (full_queue (Suc (2 ^ 31)) B')"
    unfolding fq by (simp add: B'_def)
  have nf: "\<not> isFull (full_queue (2 ^ 31) B)"
    by (simp add: isFull_def full_queue_def)
  have 3: "reachable (2 ^ 31 + 1) 1 (full_queue (Suc (2 ^ 31)) B')"
    using 2 nf p2 by (rule reachable.after_push)
  have "heapifyDown (vec (2 ^ 31) (B'(0 := B' (2 ^ 31)))) 0 = Some (Ok (vec (2 ^ 31) (B'(0 := B' (2 ^ 31)))))"
    by (simp add: heapifyDown_vec_unat larger_index_def Let_def B'_def B_def big_heap_fn_def spine_eq)
  moreover have "vec (2 ^ 31) (B'(0 := B' (2 ^ 31))) = vec (2 ^ 31) F"
    by (rule vec_cong) (simp add: B'_def B_def F_def)
  ultimately have "heapifyDown (vec (2 ^ 31) (B'(0 := B' (2 ^ 31)))) 0 = Some (Ok (vec (2 ^ 31) F))"
    by simp
  then have p3: "pop 0 (full_queue (Suc (2 ^ 31)) B') = Some (Ok (full_queue (2 ^ 31) F))"
    by (rule pop_full_queue)
  have 4: "reachable (2 ^ 31 + 1) 1 (full_queue (2 ^ 31) F)"
    using 3 isEmpty_full_queue p3 by (rule reachable.after_pop) simp
  have e: "isEmpty 0 (full_queue (2 ^ 31) F) = Ok False"
    by (rule isEmpty_full_queue) simp
  have t: "top_rq 0 (full_queue (2 ^ 31) F) = Ok (req 2)"
    by (simp add: top_rq_def) (simp add: full_queue_def F_def)
  have "heapifyDown (vec (2 ^ 31 - 1) (F(0 := F (2 ^ 31 - 1)))) 0
      = Some (Ok (vec (2 ^ 31 - 1) (F(0 := F (2 ^ 31 - 1)))))"
    by (simp add: heapifyDown_vec_unat larger_index_def Let_def F_def big_heap_fn_def spine_eq)
  moreover have "vec (2 ^ 31 - 1) (F(0 := F (2 ^ 31 - 1)))
      = vec (2 ^ 31 - 1) (big_heap_fn(0 := req 3, 1 := req 2, 2 := req 1))"
    by (rule vec_cong) (simp add: F_def)
  ultimately have "heapifyDown (vec (2 ^ 31 - 1) (F(0 := F (2 ^ 31 - 1)))) 0
      = Some (Ok (vec (2 ^ 31 - 1) (big_heap_fn(0 := req 3, 1 := req 2, 2 := req 1))))"
    by simp
  then have "pop 0 (full_queue (Suc (2 ^ 31 - 1)) F) = Some (Ok after_queue)"
    unfolding after_queue_def by (rule pop_full_queue)
  then have p4: "pop 0 (full_queue (2 ^ 31) F) = Some (Ok after_queue)"
    by simp
  have rm: "remove_max 0 (full_queue (2 ^ 31) F) = Some (Ok (req 2, after_queue))"
    using t p4 by (simp add: remove_max_def)
  have "allRequests (full_queue (2 ^ 31) F) ! 0 ! (2 ^ 31 - 1) = req 3"
    by (simp add: full_queue_def F_def)
  moreover have "(2 ^ 31 - 1 :: nat) < length (allRequests (full_queue (2 ^ 31) F) ! 0)"
    by (simp add: full_queue_def)
  ultimately have m: "req 3 \<in> set (allRequests (full_queue (2 ^ 31) F) ! 0)"
    by (metis nth_mem)
  have "less_req (req 2) (req 3)"
    by (simp add: less_req_key)
  with 4 e rm m show ?thesis
    unfolding bq by blast
qed

text \<open>
  C2 fails on the code for the same reason. Pushing the \<open>2 ^ 31 + 1\<close> requests of
  \<open>big_heap\<close> onto the empty vector, in order, and popping once returns \<open>broken_heap\<close>,
  which is no max-heap: the element at index \<open>2 ^ 30 - 1\<close> has type 2 and its left child,
  at index \<open>2 ^ 31 - 1\<close>, has type 3.
\<close>

theorem heap_broken_by_pop:
  "run_ops (map Push big_heap @ [Pop]) [] = Some (Ok broken_heap)
   \<and> 2 * (2 ^ 30 - 1) + 1 < length broken_heap
   \<and> key (broken_heap ! (2 ^ 30 - 1)) < key (broken_heap ! (2 * (2 ^ 30 - 1) + 1))
   \<and> \<not> max_heap broken_heap"
proof -
  have "run_ops (map Push big_heap) [] = Some (Ok big_heap)"
    unfolding big_heap_def by (rule run_ops_pushes) (simp_all add: big_heap_fn_ordered)
  moreover have "big_heap = vec (Suc (2 ^ 31)) big_heap_fn"
    by (simp add: big_heap_def)
  then have "pop_vector big_heap = heapifyDown (vec (2 ^ 31) (big_heap_fn(0 := big_heap_fn (2 ^ 31)))) 0"
    using pop_vector_vec [of "2 ^ 31" big_heap_fn] by simp
  then have "pop_vector big_heap = Some (Ok broken_heap)"
    using sift_down_big by (simp add: big_heap_fn_def spine_eq)
  ultimately have run: "run_ops (map Push big_heap @ [Pop]) [] = Some (Ok broken_heap)"
    by (simp add: run_ops_append)
  have len: "2 * (2 ^ 30 - 1) + 1 < length broken_heap"
    by (simp add: broken_heap_def)
  have bad: "key (broken_heap ! (2 ^ 30 - 1)) < key (broken_heap ! (2 * (2 ^ 30 - 1) + 1))"
    by (simp add: broken_heap_def big_heap_fn_def spine_eq)
  have "\<not> max_heap broken_heap"
  proof
    assume "max_heap broken_heap"
    moreover have "(2 ^ 30 - 1 :: nat) \<in> {0..<length broken_heap}"
      by (simp add: broken_heap_def)
    ultimately have "2 * (2 ^ 30 - 1) + 1 < length broken_heap \<longrightarrow>
        key (broken_heap ! (2 * (2 ^ 30 - 1) + 1)) \<le> key (broken_heap ! (2 ^ 30 - 1))"
      unfolding max_heap_def by blast
    with len bad show False by simp
  qed
  with run len bad show ?thesis by blast
qed

theorem heap_broken_by_pop_witness: "\<not> max_heap broken_heap"
  using heap_broken_by_pop by blast

text \<open>
  C3. In every queue reachable from the constructor's queue by pushes made when the
  queue is not full and pops made on an existing, non-empty group, \<open>currentSize\<close> is the
  sum of the sizes of the vectors of all groups, it lies between 0 and \<open>capacity\<close>, and
  \<open>capacity\<close> is the value the constructor was given.
\<close>

theorem size_invariant:
  assumes "reachable cap numOfGroups q"
  shows "unat (currentSize q) = total_size q \<and> 0 \<le> currentSize q \<and> currentSize q \<le> capacity q
       \<and> capacity q = cap"
  using reachable_invariant [OF assms] by auto

theorem size_invariant_witness:
  "reachable 1 1 \<lparr>capacity = 1, currentSize = 1, allRequests = [[\<lparr>Request.groupId = 0, type = 2\<rparr>]]\<rparr>
   \<and> unat (currentSize \<lparr>capacity = 1, currentSize = 1,
        allRequests = [[\<lparr>Request.groupId = 0, type = 2\<rparr>]]\<rparr>) = 1
   \<and> total_size \<lparr>capacity = 1, currentSize = 1,
        allRequests = [[\<lparr>Request.groupId = 0, type = 2\<rparr>]]\<rparr> = 1
   \<and> isFull \<lparr>capacity = 1, currentSize = 1, allRequests = [[\<lparr>Request.groupId = 0, type = 2\<rparr>]]\<rparr>"
proof -
  have n: "new_RequestQueue 1 1 = \<lparr>capacity = 1, currentSize = 0, allRequests = [[]]\<rparr>"
    by code_simp
  have f: "\<not> isFull \<lparr>capacity = 1, currentSize = 0, allRequests = [[]]\<rparr>"
    by (simp add: isFull_def)
  have p: "push \<lparr>Request.groupId = 0, type = 2\<rparr> \<lparr>capacity = 1, currentSize = 0, allRequests = [[]]\<rparr>
      = Ok \<lparr>capacity = 1, currentSize = 1, allRequests = [[\<lparr>Request.groupId = 0, type = 2\<rparr>]]\<rparr>"
    by code_simp
  have "reachable 1 1 \<lparr>capacity = 1, currentSize = 0, allRequests = [[]]\<rparr>"
    using reachable.initial [of 1 1] by (simp only: n)
  then have r: "reachable 1 1
      \<lparr>capacity = 1, currentSize = 1, allRequests = [[\<lparr>Request.groupId = 0, type = 2\<rparr>]]\<rparr>"
    using f p by (rule reachable.after_push)
  from size_invariant [OF r] r show ?thesis
    by (simp add: total_size_def isFull_def)
qed

text \<open>
  C4. In the worker loop and in the generator loop alike, a pass that reads the shutdown
  flag as true leaves the loop at once and hands the queue back exactly as it found
  it: nothing is pushed and nothing is popped, whether or not the group holds requests
  or the queue has room. (The worker's wait predicate evaluates
  \<open>queue.isEmpty(device.groupId)\<close> first, which is undefined for a group id outside
  the queue; a device created by \<open>main\<close> never has one.)
\<close>

theorem shutdown_takes_priority:
  "requestProcessing_pass True device queue =
     (case isEmpty (Device.groupId device) queue of
        UB \<Rightarrow> Some UB
      | Ok noRequests \<Rightarrow> Some (Ok (Break queue)))
   \<and> generateRequest_pass True dist numGroups rd1 rd2 queue = Ok (Break queue)"
  by (simp add: requestProcessing_pass_def generateRequest_pass_def split: result.splits)

theorem shutdown_takes_priority_witness:
  "requestProcessing_pass True \<lparr>Device.groupId = 0, id_dev = 0\<rparr>
      \<lparr>capacity = 10, currentSize = 1,
       allRequests = [[\<lparr>Request.groupId = 0, type = 2\<rparr>], []]\<rparr>
     = Some (Ok (Break \<lparr>capacity = 10, currentSize = 1,
                        allRequests = [[\<lparr>Request.groupId = 0, type = 2\<rparr>], []]\<rparr>))
   \<and> generateRequest_pass True (\<lambda>start finish rd. finish) 2 7 9
      \<lparr>capacity = 10, currentSize = 1,
       allRequests = [[\<lparr>Request.groupId = 0, type = 2\<rparr>], []]\<rparr>
     = Ok (Break \<lparr>capacity = 10, currentSize = 1,
                  allRequests = [[\<lparr>Request.groupId = 0, type = 2\<rparr>], []]\<rparr>)"
  using shutdown_takes_priority [of "\<lparr>Device.groupId = 0, id_dev = 0\<rparr>"
      "\<lparr>capacity = 10, currentSize = 1,
        allRequests = [[\<lparr>Request.groupId = 0, type = 2\<rparr>], []]\<rparr>"
      "\<lambda>start finish rd. finish" 2 7 9]
  by (simp add: isEmpty_def group_index_def)

text \<open>
  C5. From the empty queue with two groups and capacity 10, pushing the requests of
  type 1, 3 and 2 into group 0 and then removing the maximum of group 0 three times
  (\<open>top\<close> then \<open>pop\<close>) yields the types 3, 2, 1 in this order, and leaves the queue empty.
\<close>

theorem scenario_types_3_2_1:
  "pushes [\<lparr>Request.groupId = 0, type = 1\<rparr>, \<lparr>Request.groupId = 0, type = 3\<rparr>,
           \<lparr>Request.groupId = 0, type = 2\<rparr>] (new_RequestQueue 10 2)
     = Ok \<lparr>capacity = 10, currentSize = 3,
           allRequests = [[\<lparr>Request.groupId = 0, type = 3\<rparr>, \<lparr>Request.groupId = 0, type = 1\<rparr>,
                           \<lparr>Request.groupId = 0, type = 2\<rparr>], []]\<rparr>
   \<and> remove_maxes 3 0 \<lparr>capacity = 10, currentSize = 3,
           allRequests = [[\<lparr>Request.groupId = 0, type = 3\<rparr>, \<lparr>Request.groupId = 0, type = 1\<rparr>,
                           \<lparr>Request.groupId = 0, type = 2\<rparr>], []]\<rparr>
     = Some (Ok ([\<lparr>Request.groupId = 0, type = 3\<rparr>, \<lparr>Request.groupId = 0, type = 2\<rparr>,
                  \<lparr>Request.groupId = 0, type = 1\<rparr>],
                 \<lparr>capacity = 10, currentSize = 0, allRequests = [[], []]\<rparr>))"
  by code_simp

text \<open>
  C6. When the vector of a group holds exactly one request, \<open>pop\<close> of that group returns
  normally, leaves the vector empty (\<open>isEmpty\<close> is true afterwards), and the
  \<open>heapifyDown\<close> it runs is the one on the empty vector from index 0, which returns the
  empty vector without reading any element.
\<close>

theorem pop_single_element:
  assumes "group_index q g = Some k" and "length (allRequests q ! k) = 1"
  shows "pop g q = Some (Ok (q\<lparr>currentSize := currentSize q - 1,
                                allRequests := (allRequests q)[k := []]\<rparr>))
       \<and> isEmpty g (q\<lparr>currentSize := currentSize q - 1,
                       allRequests := (allRequests q)[k := []]\<rparr>) = Ok True
       \<and> pop_vector (allRequests q ! k) = heapifyDown [] 0
       \<and> heapifyDown [] 0 = Some (Ok [])"
proof -
  from assms(2) obtain r where r: "allRequests q ! k = [r]"
    by (cases "allRequests q ! k") auto
  have pv: "pop_vector (allRequests q ! k) = heapifyDown [] 0"
    by (simp add: r pop_vector_def)
  from assms(1) have k: "k < length (allRequests q)"
    by (rule group_index_lt)
  show ?thesis
    using assms(1) k by (simp add: pop_def pv heapifyDown_Nil isEmpty_def group_index_def)
qed

theorem pop_single_element_witness:
  "pop 1 \<lparr>capacity = 10, currentSize = 1,
          allRequests = [[], [\<lparr>Request.groupId = 1, type = 2\<rparr>]]\<rparr>
     = Some (Ok \<lparr>capacity = 10, currentSize = 0, allRequests = [[], []]\<rparr>)
   \<and> isEmpty 1 \<lparr>capacity = 10, currentSize = 0, allRequests = [[], []]\<rparr> = Ok True"
  using pop_single_element [of "\<lparr>capacity = 10, currentSize = 1,
          allRequests = [[], [\<lparr>Request.groupId = 1, type = 2\<rparr>]]\<rparr>" 1 1]
  by (simp add: group_index_def)

text \<open>
  C7. Every request that the generator creates has its type between 1 and 3 and its
  group id from 0 up to, but not including, \<open>numGroups\<close>, provided
  \<open>getRandomNumber(start, end)\<close> returns a value inside the closed range from \<open>start\<close> to
  \<open>end\<close>. (The generator creates no request when \<open>numGroups\<close> is not positive: the first
  call then asks for an empty range.)
\<close>

theorem generated_request_in_range:
  assumes "getRandomNumber_in_range dist"
    and "generateRequest_request dist numGroups rd1 rd2 = Ok request"
  shows "1 \<le> sint (type request) \<and> sint (type request) \<le> 3
       \<and> 0 \<le> sint (Request.groupId request) \<and> sint (Request.groupId request) < sint numGroups"
proof -
  from assms(2) obtain randomGroup randomType where
    nov: "\<not> sint numGroups - 1 < - (2 ^ 31)"
    and g: "getRandomNumber dist 0 (numGroups - 1) rd1 = Ok randomGroup"
    and t: "getRandomNumber dist MIN_REQUEST_TYPE MAX_REQUEST_TYPE rd2 = Ok randomType"
    and req: "request = \<lparr>Request.groupId = randomGroup, type = randomType\<rparr>"
    by (auto simp: generateRequest_request_def split: if_splits result.splits)
  from assms(1) g have "0 \<le>s randomGroup \<and> randomGroup \<le>s numGroups - 1"
    unfolding getRandomNumber_in_range_def by blast
  moreover from assms(1) t
  have "MIN_REQUEST_TYPE \<le>s randomType \<and> randomType \<le>s MAX_REQUEST_TYPE"
    unfolding getRandomNumber_in_range_def by blast
  moreover have "sint numGroups < 2 ^ 31"
    using sint_lt [of numGroups] by simp
  with nov have "sint (numGroups - 1) = sint numGroups - 1"
    by (simp add: sint_word_ariths signed_take_bit_int_eq_self)
  ultimately show ?thesis
    by (simp add: req word_sle_eq MIN_REQUEST_TYPE_def MAX_REQUEST_TYPE_def)
qed

theorem generated_request_in_range_witness:
  "getRandomNumber_in_range (\<lambda>start finish rd. finish)
   \<and> generateRequest_request (\<lambda>start finish rd. finish) 2 7 9
       = Ok \<lparr>Request.groupId = 1, type = 3\<rparr>
   \<and> 1 \<le> sint (type \<lparr>Request.groupId = 1, type = 3 :: i32\<rparr>)
   \<and> sint (type \<lparr>Request.groupId = 1, type = 3 :: i32\<rparr>) \<le> 3
   \<and> 0 \<le> sint (Request.groupId \<lparr>Request.groupId = 1, type = 3 :: i32\<rparr>)
   \<and> sint (Request.groupId \<lparr>Request.groupId = 1, type = 3 :: i32\<rparr>) < sint (2 :: i32)"
proof -
  have a: "getRandomNumber_in_range (\<lambda>start finish rd. finish)"
    by (auto simp: getRandomNumber_in_range_def getRandomNumber_def word_sle_eq word_sless_alt
        split: if_splits)
  have b: "generateRequest_request (\<lambda>start finish rd. finish) 2 7 9
      = Ok \<lparr>Request.groupId = 1, type = 3\<rparr>"
    by (simp add: generateRequest_request_def getRandomNumber_def word_sless_alt
        MIN_REQUEST_TYPE_def MAX_REQUEST_TYPE_def)
  from generated_request_in_range [OF a b] a b show ?thesis
    by simp
qed

text \<open>The generator creates no request for a number of groups that is not positive: the
  range of the first call is then empty, or \<open>numGroups - 1\<close> overflows.\<close>

lemma no_request_without_groups:
  "sint numGroups \<le> 0 \<Longrightarrow> generateRequest_request dist numGroups rd1 rd2 = UB"
proof -
  assume le: "sint numGroups \<le> 0"
  show ?thesis
  proof (cases "sint numGroups - 1 < - (2 ^ 31)")
    case True
    then show ?thesis by (simp add: generateRequest_request_def)
  next
    case False
    have "sint numGroups < 2 ^ 31"
      using sint_lt [of numGroups] by simp
    with False have "sint (numGroups - 1) = sint numGroups - 1"
      by (simp add: sint_word_ariths signed_take_bit_int_eq_self)
    with le have "numGroups - 1 <s 0"
      by (simp add: word_sless_alt)
    then show ?thesis
      by (simp add: generateRequest_request_def getRandomNumber_def)
  qed
qed

text \<open>
  C8, as the code has it. The ids that \<open>main\<close> assigns are computed in \<open>unsigned int\<close>.
  When the number of devices, \<open>numOfGroups * numOfDevices\<close>, is at most \<open>2 ^ 32\<close>, the
  map from \<open>(i, q)\<close> to \<open>i * numOfDevices + q\<close> is injective over \<open>i < numOfGroups\<close> and
  \<open>q < numOfDevices\<close>, and the ids of the devices that \<open>main\<close> creates are pairwise
  distinct.
\<close>

theorem device_ids_unique:
  assumes "unat numOfGroups * unat numOfDevices \<le> 2 ^ 32"
  shows "inj_on (\<lambda>(i, q). device_id numOfDevices i q)
           ({i. i < numOfGroups} \<times> {q. q < numOfDevices})
       \<and> distinct (map id_dev (created_devices numOfGroups numOfDevices))"
  using assms by (simp add: device_id_inj created_devices_distinct)

theorem device_ids_unique_witness:
  "unat (2 :: u32) * unat (3 :: u32) \<le> 2 ^ 32
   \<and> inj_on (\<lambda>(i, q). device_id 3 i q) ({i. i < (2::u32)} \<times> {q. q < (3::u32)})
   \<and> distinct (map id_dev (created_devices 2 3))"
  using device_ids_unique [of 2 3] by simp

text \<open>
  C8, as the claim states it, fails: with 65537 groups of 65536 devices the product
  \<open>65536 * 65536\<close> wraps around to 0, and the first device of group 65536 gets the id 0
  of the first device of group 0.
\<close>

theorem device_ids_collide:
  "(0::u32) < 65537 \<and> (65536::u32) < 65537 \<and> (0::u32) < 65536
   \<and> ((0::u32), (0::u32)) \<noteq> (65536, 0)
   \<and> device_id 65536 0 0 = device_id 65536 65536 0"
  by (simp add: device_id_def)

text \<open>
  C9. A \<open>push\<close> that returns leaves \<open>capacity\<close> and the number of groups as they were and
  changes no vector other than the one indexed by the request's group id; a \<open>pop\<close> that
  returns leaves \<open>capacity\<close> and the number of groups as they were and changes no vector
  other than the one indexed by its argument.
\<close>

theorem push_pop_frame:
  "(push request q = Ok q' \<longrightarrow>
      capacity q' = capacity q \<and> length (allRequests q') = length (allRequests q)
      \<and> (\<forall>k < length (allRequests q). group_index q (Request.groupId request) \<noteq> Some k
            \<longrightarrow> allRequests q' ! k = allRequests q ! k))
   \<and> (pop g q = Some (Ok q'') \<longrightarrow>
      capacity q'' = capacity q \<and> length (allRequests q'') = length (allRequests q)
      \<and> (\<forall>k < length (allRequests q). group_index q g \<noteq> Some k
            \<longrightarrow> allRequests q'' ! k = allRequests q ! k))"
  by (auto simp: push_def pop_def split: option.splits result.splits)

theorem push_pop_frame_witness:
  "push \<lparr>Request.groupId = 0, type = 3\<rparr>
      \<lparr>capacity = 10, currentSize = 2,
       allRequests = [[\<lparr>Request.groupId = 0, type = 1\<rparr>], [\<lparr>Request.groupId = 1, type = 2\<rparr>]]\<rparr>
     = Ok \<lparr>capacity = 10, currentSize = 3,
           allRequests = [[\<lparr>Request.groupId = 0, type = 3\<rparr>, \<lparr>Request.groupId = 0, type = 1\<rparr>],
                          [\<lparr>Request.groupId = 1, type = 2\<rparr>]]\<rparr>
   \<and> pop 0
      \<lparr>capacity = 10, currentSize = 2,
       allRequests = [[\<lparr>Request.groupId = 0, type = 1\<rparr>], [\<lparr>Request.groupId = 1, type = 2\<rparr>]]\<rparr>
     = Some (Ok \<lparr>capacity = 10, currentSize = 1,
                 allRequests = [[], [\<lparr>Request.groupId = 1, type = 2\<rparr>]]\<rparr>)
   \<and> capacity \<lparr>capacity = 10, currentSize = 3,
           allRequests = [[\<lparr>Request.groupId = 0, type = 3\<rparr>, \<lparr>Request.groupId = 0, type = 1\<rparr>],
                          [\<lparr>Request.groupId = 1, type = 2\<rparr>]]\<rparr> = 10"
proof -
  have a: "push \<lparr>Request.groupId = 0, type = 3\<rparr>
      \<lparr>capacity = 10, currentSize = 2,
       allRequests = [[\<lparr>Request.groupId = 0, type = 1\<rparr>], [\<lparr>Request.groupId = 1, type = 2\<rparr>]]\<rparr>
     = Ok \<lparr>capacity = 10, currentSize = 3,
           allRequests = [[\<lparr>Request.groupId = 0, type = 3\<rparr>, \<lparr>Request.groupId = 0, type = 1\<rparr>],
                          [\<lparr>Request.groupId = 1, type = 2\<rparr>]]\<rparr>"
    by code_simp
  have b: "pop 0
      \<lparr>capacity = 10, currentSize = 2,
       allRequests = [[\<lparr>Request.groupId = 0, type = 1\<rparr>], [\<lparr>Request.groupId = 1, type = 2\<rparr>]]\<rparr>
     = Some (Ok \<lparr>capacity = 10, currentSize = 1,
                 allRequests = [[], [\<lparr>Request.groupId = 1, type = 2\<rparr>]]\<rparr>)"
    by code_simp
  from push_pop_frame [of "\<lparr>Request.groupId = 0, type = 3\<rparr>"
      "\<lparr>capacity = 10, currentSize = 2,
       allRequests = [[\<lparr>Request.groupId = 0, type = 1\<rparr>], [\<lparr>Request.groupId = 1, type = 2\<rparr>]]\<rparr>"
      "\<lparr>capacity = 10, currentSize = 3,
           allRequests = [[\<lparr>Request.groupId = 0, type = 3\<rparr>, \<lparr>Request.groupId = 0, type = 1\<rparr>],
                          [\<lparr>Request.groupId = 1, type = 2\<rparr>]]\<rparr>"
      0
      "\<lparr>capacity = 10, currentSize = 1,
                 allRequests = [[], [\<lparr>Request.groupId = 1, type = 2\<rparr>]]\<rparr>"] a b
  show ?thesis
    by simp
qed

text \<open>
  C10 fails on the code for \<open>heapifyDown\<close>. (\<open>heapifyUp\<close> is a total function: its
  definition above is accepted with the index as the measure that every recursive call
  decreases.) The queue of capacity \<open>2 ^ 31 + 1\<close> whose only group holds \<open>2 ^ 31\<close>
  requests of type 2 followed by one request of type 1 is reachable, its group is not
  empty, and popping the group never returns: the request of type 1 travels down the
  leftmost branch to index \<open>2 ^ 31 - 1\<close>, whose right child index wraps around to 0, is
  swapped with the root, and starts again.
\<close>

theorem pop_never_returns:
  "reachable (2 ^ 31 + 1) 1 (full_queue (2 ^ 31 + 1) stuck_fn)
   \<and> allRequests (full_queue (2 ^ 31 + 1) stuck_fn) = [stuck_vector]
   \<and> isEmpty 0 (full_queue (2 ^ 31 + 1) stuck_fn) = Ok False
   \<and> pop_vector stuck_vector = None
   \<and> pop 0 (full_queue (2 ^ 31 + 1) stuck_fn) = None"
proof -
  have r: "reachable (2 ^ 31 + 1) 1 (full_queue (2 ^ 31 + 1) stuck_fn)"
    by (rule reachable_full_queue) (simp_all add: stuck_fn_ordered, simp add: stuck_fn_def)
  have a: "allRequests (full_queue (2 ^ 31 + 1) stuck_fn) = [stuck_vector]"
    by (simp only: full_queue_def stuck_vector_vec) simp
  have e: "isEmpty 0 (full_queue (2 ^ 31 + 1) stuck_fn) = Ok False"
    by (rule isEmpty_full_queue) simp
  have "butlast (stuck_vector[0 := last stuck_vector]) = vec (2 ^ 31) (single_low (2 ^ 0 - 1))"
    by (rule nth_equalityI)
      (simp_all add: stuck_vector_def nth_butlast nth_list_update nth_append single_low_def)
  moreover have "(0 :: u32) = word_of_nat (2 ^ 0 - 1)" by simp
  ultimately have "on_cycle (butlast (stuck_vector[0 := last stuck_vector])) 0"
    unfolding on_cycle_def by blast
  then have "heapifyDown (butlast (stuck_vector[0 := last stuck_vector])) 0 = None"
    by (rule on_cycle_never_returns)
  then have p: "pop_vector stuck_vector = None"
    by (simp add: pop_vector_def stuck_vector_def)
  then have "pop 0 (full_queue (2 ^ 31 + 1) stuck_fn) = None"
    using a by (simp add: pop_def)
  with r a e p show ?thesis by blast
qed

end
